theory Spec2Isabelle
  imports Main "HOL-Library.Monad_Syntax"
begin

section \<open>Common vocabulary of both containers\<close>

text \<open>
  The two headers \<^verbatim>\<open>Vector.h\<close> and \<^verbatim>\<open>LinkedList.h\<close> throw two kinds of exception:
  \<^verbatim>\<open>std::logic_error\<close> (an empty collection) and \<^verbatim>\<open>std::out_of_range\<close> (an invalid
  position). A member function either returns a result and leaves a state, throws and
  leaves the state it had reached when it threw, or runs into undefined behaviour (a null
  or dangling pointer is dereferenced, an array is accessed outside its allocation, a node
  is deleted twice).
\<close>

datatype exn = logic_error | out_of_range

datatype ('r, 's) outcome = Returns 'r 's | Throws exn 's | Undefined

text \<open>
  The free store. \<^verbatim>\<open>new\<close> takes the next fresh address; \<^verbatim>\<open>delete\<close> of an address that
  holds nothing is undefined (\<open>None\<close>). Allocation itself never fails in this model.
\<close>

record 'c heap =
  cells :: "nat \<Rightarrow> 'c option"
  brk :: nat

definition alloc :: "'c \<Rightarrow> 'c heap \<Rightarrow> nat \<times> 'c heap" where
  "alloc c h = (brk h, h\<lparr>cells := (cells h)(brk h \<mapsto> c), brk := Suc (brk h)\<rparr>)"

definition free :: "nat \<Rightarrow> 'c heap \<Rightarrow> 'c heap option" where
  "free a h = (case cells h a of None \<Rightarrow> None
               | Some c \<Rightarrow> Some (h\<lparr>cells := (cells h)(a := None)\<rparr>))"

text \<open>
  \<^verbatim>\<open>size_type\<close> is the unsigned 64-bit \<^verbatim>\<open>std::size_t\<close>. Counts are natural numbers, and
  a count never reaches \<open>2 ^ 64\<close> (every element takes memory), so \<open>size + 1\<close> and
  \<open>capacity * 2\<close> are the sums and products of natural numbers. A subtraction below zero
  and the conversion of a negative \<^verbatim>\<open>std::ptrdiff_t\<close> wrap around as the machine does.
\<close>

definition SIZE_MOD :: nat where
  "SIZE_MOD = 2 ^ 64"

definition size_sub :: "nat \<Rightarrow> nat \<Rightarrow> nat" where
  "size_sub a b = (if b \<le> a then a - b else a + SIZE_MOD - b)"

definition size_cast :: "int \<Rightarrow> nat" where
  "size_cast d = (if 0 \<le> d then nat d else nat (d + int SIZE_MOD))"


section \<open>Vector.h: the dynamic array\<close>

subsection \<open>Pointers into arrays\<close>

text \<open>
  A \<^verbatim>\<open>Type *\<close> is null or points into an allocated array: the array's address and an
  offset counted in elements. A cell of an array holds \<open>None\<close> until it is first written
  (\<^verbatim>\<open>new Type[n]\<close> leaves its cells without a value of the program's).
\<close>

datatype ptr = Null | Ptr nat int

type_synonym 'a array_heap = "'a option list heap"

definition ptr_add :: "ptr \<Rightarrow> int \<Rightarrow> ptr" where
  "ptr_add p d = (case p of Null \<Rightarrow> Null | Ptr b i \<Rightarrow> Ptr b (i + d))"

definition ptr_diff :: "ptr \<Rightarrow> ptr \<Rightarrow> int option" where
  "ptr_diff p q = (case p of
      Null \<Rightarrow> (case q of Null \<Rightarrow> Some 0 | Ptr c j \<Rightarrow> None)
    | Ptr b i \<Rightarrow> (case q of Null \<Rightarrow> None | Ptr c j \<Rightarrow> if b = c then Some (i - j) else None))"

definition new_array :: "nat \<Rightarrow> 'a array_heap \<Rightarrow> nat \<times> 'a array_heap" where
  "new_array n h = alloc (replicate n None) h"

definition delete_array :: "ptr \<Rightarrow> 'a array_heap \<Rightarrow> 'a array_heap option" where
  "delete_array p h = (case p of Null \<Rightarrow> Some h
                       | Ptr b i \<Rightarrow> if i = 0 then free b h else None)"

definition load :: "ptr \<Rightarrow> 'a array_heap \<Rightarrow> 'a option" where
  "load p h = (case p of Null \<Rightarrow> None
     | Ptr b i \<Rightarrow> (case cells h b of None \<Rightarrow> None
         | Some cs \<Rightarrow> if 0 \<le> i \<and> nat i < length cs then cs ! nat i else None))"

definition store :: "ptr \<Rightarrow> 'a \<Rightarrow> 'a array_heap \<Rightarrow> 'a array_heap option" where
  "store p x h = (case p of Null \<Rightarrow> None
     | Ptr b i \<Rightarrow> (case cells h b of None \<Rightarrow> None
         | Some cs \<Rightarrow> if 0 \<le> i \<and> nat i < length cs
                      then Some (h\<lparr>cells := (cells h)(b \<mapsto> cs[nat i := Some x])\<rparr>)
                      else None))"

text \<open>The assignment \<^verbatim>\<open>*dst = *src\<close> between two cells.\<close>

definition copy_elem :: "ptr \<Rightarrow> ptr \<Rightarrow> 'a array_heap \<Rightarrow> 'a array_heap option" where
  "copy_elem dst src h = (case load src h of None \<Rightarrow> None | Some x \<Rightarrow> store dst x h)"

subsection \<open>References and objects\<close>

text \<open>
  A parameter \<^verbatim>\<open>const Type &item\<close> is a reference: to an object outside every array (a
  temporary or a variable of the caller, which keeps its value during the call) or to a
  cell of an array. A reference to a cell is read when the member function reads it, in
  the free store as it is then.
\<close>

datatype 'a reference = Temporary 'a | Element ptr

definition read_reference :: "'a reference \<Rightarrow> 'a array_heap \<Rightarrow> 'a option" where
  "read_reference item h = (case item of Temporary x \<Rightarrow> Some x | Element p \<Rightarrow> load p h)"

text \<open>
  A \<^verbatim>\<open>Vector *\<close> is null (\<open>None\<close>) or the address of a \<^verbatim>\<open>Vector\<close> object. The objects are
  kept in a store \<open>vs\<close>: \<open>vs a\<close> is the object at the address \<open>a\<close>, and \<open>None\<close> where no
  object lives. \<open>Vector_at\<close> dereferences a pointer; \<open>update_Vector\<close> assigns to fields of
  the object at an address.
\<close>

type_synonym vector_ptr = "nat option"

subsection \<open>The classes\<close>

datatype IteratorType = REGULAR | BEGIN | END

text \<open>
  \<^verbatim>\<open>Vector::ConstIterator\<close>: the raw position, the back-pointer to the array the cursor was
  made for, and the tag. \<^verbatim>\<open>Vector::Iterator\<close> has the same fields and forwards every
  operation to the one of \<^verbatim>\<open>ConstIterator\<close>.
\<close>

record Vector_ConstIterator =
  currentElement :: ptr
  collection_v :: vector_ptr
  iteratorType :: IteratorType

record Vector =
  elements :: ptr
  size_v :: nat
  capacity :: nat
  pastTheEnd :: Vector_ConstIterator

type_synonym Vector_objects = "nat \<Rightarrow> Vector option"

definition Vector_at :: "Vector_objects \<Rightarrow> vector_ptr \<Rightarrow> Vector option" where
  "Vector_at vs p = (case p of None \<Rightarrow> None | Some a \<Rightarrow> vs a)"

definition update_Vector :: "nat \<Rightarrow> (Vector \<Rightarrow> Vector) \<Rightarrow> Vector_objects \<Rightarrow> Vector_objects option" where
  "update_Vector a f vs = (case vs a of None \<Rightarrow> None | Some v \<Rightarrow> Some (vs(a \<mapsto> f v)))"

definition DEFAULT_INITIAL_CAPACITY :: nat where
  "DEFAULT_INITIAL_CAPACITY = 30"

definition isEnd :: "Vector_ConstIterator \<Rightarrow> bool" where
  "isEnd it = (iteratorType it = END)"

definition isBegin :: "Vector_ConstIterator \<Rightarrow> bool" where
  "isBegin it = (iteratorType it = BEGIN)"

definition isRegular :: "Vector_ConstIterator \<Rightarrow> bool" where
  "isRegular it = (iteratorType it = REGULAR)"

definition markEnd :: "Vector_ConstIterator \<Rightarrow> Vector_ConstIterator" where
  "markEnd it = it\<lparr>iteratorType := END\<rparr>"


definition markRegular :: "Vector_ConstIterator \<Rightarrow> Vector_ConstIterator" where
  "markRegular it = it\<lparr>iteratorType := REGULAR\<rparr>"

subsection \<open>Construction, growth and the shifting loops\<close>

text \<open>
  A member function that works on the fields of \<^verbatim>\<open>*this\<close> and on the free store only is a
  function of the fields \<open>v\<close> and the free store \<open>h\<close>, and returns them as it leaves them.
  Where it stores \<^verbatim>\<open>this\<close> in a cursor it has the address \<open>this\<close> as an argument, and where
  it follows the back-pointer of a cursor it has the store \<open>vs\<close> of the \<^verbatim>\<open>Vector\<close> objects as
  they are when it is called. The member functions that work on two objects, which may be
  one and the same, work on the store.

  \<^verbatim>\<open>Vector(size_type initialCapacity)\<close>, for the object at the address \<open>this\<close>.
\<close>

definition Vector_ctor :: "nat \<Rightarrow> nat \<Rightarrow> 'a array_heap \<Rightarrow> Vector \<times> 'a array_heap" where
  "Vector_ctor initialCapacity this h =
     (let (b, h1) = new_array initialCapacity h
      in (\<lparr>elements = Ptr b 0, size_v = 0, capacity = initialCapacity,
           pastTheEnd = \<lparr>currentElement = Ptr b 0, collection_v = Some this,
                         iteratorType = END\<rparr>\<rparr>, h1))"

definition Vector_isEmpty :: "Vector \<Rightarrow> bool" where
  "Vector_isEmpty v = (size_v v = 0)"

definition Vector_getSize :: "Vector \<Rightarrow> nat" where
  "Vector_getSize v = size_v v"

definition Vector_getCapacity :: "Vector \<Rightarrow> nat" where
  "Vector_getCapacity v = capacity v"

text \<open>The loop of \<^verbatim>\<open>reallocateMemory\<close>: \<^verbatim>\<open>elements[i] = oldElements[i]\<close> for \<open>i < size\<close>.\<close>

function reallocate_loop :: "nat \<Rightarrow> nat \<Rightarrow> ptr \<Rightarrow> ptr \<Rightarrow> 'a array_heap \<Rightarrow> 'a array_heap option" where
  "reallocate_loop i n els oldElements h =
     (if i < n
      then (case copy_elem (ptr_add els (int i)) (ptr_add oldElements (int i)) h of
              None \<Rightarrow> None
            | Some h1 \<Rightarrow> reallocate_loop (Suc i) n els oldElements h1)
      else Some h)"
  by pat_completeness auto
termination
  by (relation "measure (\<lambda>(i, n, els, oldElements, h). n - i)") auto

definition reallocateMemory_to :: "nat \<Rightarrow> Vector \<Rightarrow> 'a array_heap \<Rightarrow> (Vector \<times> 'a array_heap) option" where
  "reallocateMemory_to newCapacity v h =
     (let oldElements = elements v;
          (b, h1) = new_array newCapacity h;
          v1 = v\<lparr>capacity := newCapacity, elements := Ptr b 0\<rparr>
      in case reallocate_loop 0 (size_v v1) (elements v1) oldElements h1 of
           None \<Rightarrow> None
         | Some h2 \<Rightarrow> (case delete_array oldElements h2 of
                         None \<Rightarrow> None
                       | Some h3 \<Rightarrow> Some (v1, h3)))"

definition reallocateMemory :: "Vector \<Rightarrow> 'a array_heap \<Rightarrow> (Vector \<times> 'a array_heap) option" where
  "reallocateMemory v h = reallocateMemory_to (capacity v * 2) v h"

definition reallocateMemoryIfNeeded :: "Vector \<Rightarrow> 'a array_heap \<Rightarrow> (Vector \<times> 'a array_heap) option" where
  "reallocateMemoryIfNeeded v h =
     (if size_v v + 1 > capacity v then reallocateMemory v h else Some (v, h))"

text \<open>\<^verbatim>\<open>for (i = size; i > beginIndex; i--) elements[i] = elements[i-1];\<close>\<close>

function shiftRight_loop :: "nat \<Rightarrow> nat \<Rightarrow> ptr \<Rightarrow> 'a array_heap \<Rightarrow> 'a array_heap option" where
  "shiftRight_loop i beginIndex els h =
     (if i > beginIndex
      then (case copy_elem (ptr_add els (int i)) (ptr_add els (int (i - 1))) h of
              None \<Rightarrow> None
            | Some h1 \<Rightarrow> shiftRight_loop (i - 1) beginIndex els h1)
      else Some h)"
  by pat_completeness auto
termination
  by (relation "measure (\<lambda>(i, beginIndex, els, h). i)") auto

definition shiftElementsToRightFrom :: "nat \<Rightarrow> Vector \<Rightarrow> 'a array_heap \<Rightarrow> 'a array_heap option" where
  "shiftElementsToRightFrom beginIndex v h = shiftRight_loop (size_v v) beginIndex (elements v) h"

text \<open>\<^verbatim>\<open>for (i = consumedElementIndex; i < size-1; i++) elements[i] = elements[i+1];\<close>\<close>

function shiftLeft_loop :: "nat \<Rightarrow> nat \<Rightarrow> ptr \<Rightarrow> 'a array_heap \<Rightarrow> 'a array_heap option" where
  "shiftLeft_loop i bound els h =
     (if i < bound
      then (case copy_elem (ptr_add els (int i)) (ptr_add els (int (i + 1))) h of
              None \<Rightarrow> None
            | Some h1 \<Rightarrow> shiftLeft_loop (Suc i) bound els h1)
      else Some h)"
  by pat_completeness auto
termination
  by (relation "measure (\<lambda>(i, bound, els, h). bound - i)") auto

definition shiftElementsToLeftUpTo :: "nat \<Rightarrow> Vector \<Rightarrow> 'a array_heap \<Rightarrow> 'a array_heap option" where
  "shiftElementsToLeftUpTo consumedElementIndex v h =
     shiftLeft_loop consumedElementIndex (size_sub (size_v v) 1) (elements v) h"

text \<open>
  The loop of the range \<^verbatim>\<open>erase\<close>:
  \<^verbatim>\<open>for (i = firstIncludeIndex, j = lastExcludedIndex; i < size; i++, j++) elements[i] = elements[j];\<close>
\<close>

function eraseRange_loop :: "nat \<Rightarrow> nat \<Rightarrow> nat \<Rightarrow> ptr \<Rightarrow> 'a array_heap \<Rightarrow> 'a array_heap option" where
  "eraseRange_loop i j n els h =
     (if i < n
      then (case copy_elem (ptr_add els (int i)) (ptr_add els (int j)) h of
              None \<Rightarrow> None
            | Some h1 \<Rightarrow> eraseRange_loop (Suc i) (Suc j) n els h1)
      else Some h)"
  by pat_completeness auto
termination
  by (relation "measure (\<lambda>(i, j, n, els, h). n - i)") auto

subsection \<open>The cursor of the array\<close>

definition Vector_throwIfEnd :: "Vector_ConstIterator \<Rightarrow> exn option" where
  "Vector_throwIfEnd it = (if isEnd it then Some out_of_range else None)"


text \<open>\<^verbatim>\<open>operator*\<close>: the heap is read, the cursor stays as it is.\<close>

definition Vector_deref :: "Vector_ConstIterator \<Rightarrow> 'a array_heap \<Rightarrow> ('a, Vector_ConstIterator) outcome" where
  "Vector_deref it h =
     (case Vector_throwIfEnd it of
        Some e \<Rightarrow> Throws e it
      | None \<Rightarrow> (case load (currentElement it) h of
                   None \<Rightarrow> Undefined
                 | Some x \<Rightarrow> Returns x it))"

text \<open>
  \<^verbatim>\<open>operator++()\<close> reads \<^verbatim>\<open>collection->elements\<close> and \<^verbatim>\<open>collection->getSize()\<close>: the
  back-pointer is followed in the store \<open>vs\<close>, and a null or dangling one is undefined.
\<close>

definition Vector_preinc :: "Vector_objects \<Rightarrow> Vector_ConstIterator \<Rightarrow> (unit, Vector_ConstIterator) outcome" where
  "Vector_preinc vs it =
     (case Vector_throwIfEnd it of
        Some e \<Rightarrow> Throws e it
      | None \<Rightarrow>
         (let it1 = it\<lparr>currentElement := ptr_add (currentElement it) 1\<rparr>;
              it2 = (if isBegin it1 then markRegular it1 else it1)
          in case Vector_at vs (collection_v it2) of
               None \<Rightarrow> Undefined
             | Some c \<Rightarrow>
                 (case ptr_diff (currentElement it2) (elements c) of
                    None \<Rightarrow> Undefined
                  | Some d \<Rightarrow>
                      Returns () (if size_cast d \<ge> Vector_getSize c then markEnd it2 else it2))))"




text \<open>
  \<^verbatim>\<open>operator+\<close> and \<^verbatim>\<open>operator-\<close> build the cursor from the new position and the
  back-pointer, with the constructor's default third argument, \<^verbatim>\<open>IteratorType::REGULAR\<close>.
\<close>

definition Vector_plus :: "Vector_ConstIterator \<Rightarrow> int \<Rightarrow> Vector_ConstIterator" where
  "Vector_plus it d = \<lparr>currentElement = ptr_add (currentElement it) d,
                       collection_v = collection_v it, iteratorType = REGULAR\<rparr>"

definition Vector_minus :: "Vector_ConstIterator \<Rightarrow> int \<Rightarrow> Vector_ConstIterator" where
  "Vector_minus it d = \<lparr>currentElement = ptr_add (currentElement it) (- d),
                        collection_v = collection_v it, iteratorType = REGULAR\<rparr>"

text \<open>\<^verbatim>\<open>operator==\<close> and \<^verbatim>\<open>operator!=\<close>\<close>

definition Vector_eq :: "Vector_ConstIterator \<Rightarrow> Vector_ConstIterator \<Rightarrow> bool" where
  "Vector_eq it other =
     (if isEnd it \<and> isEnd other then True
      else currentElement it = currentElement other)"


text \<open>
  \<^verbatim>\<open>calculateIndex\<close>: \<^verbatim>\<open>currentElement - collection->elements\<close>, the difference to the buffer
  of the cursor's own array, converted to \<^verbatim>\<open>size_type\<close>. The difference of pointers into
  two arrays, or of a pointer and the null pointer, is undefined.
\<close>

definition calculateIndex :: "Vector_objects \<Rightarrow> Vector_ConstIterator \<Rightarrow> nat option" where
  "calculateIndex vs it =
     (case Vector_at vs (collection_v it) of
        None \<Rightarrow> None
      | Some c \<Rightarrow> map_option size_cast (ptr_diff (currentElement it) (elements c)))"

subsection \<open>begin and end\<close>

definition createBegin :: "nat \<Rightarrow> Vector \<Rightarrow> Vector_ConstIterator" where
  "createBegin this v = \<lparr>currentElement = ptr_add (elements v) 0, collection_v = Some this,
                          iteratorType = BEGIN\<rparr>"

definition Vector_begin :: "nat \<Rightarrow> Vector \<Rightarrow> Vector_ConstIterator" where
  "Vector_begin this v = createBegin this v"

definition createBeginAsEnd :: "nat \<Rightarrow> Vector \<Rightarrow> Vector_ConstIterator" where
  "createBeginAsEnd this v = markEnd (Vector_begin this v)"

text \<open>
  \<^verbatim>\<open>preparePastTheEnd\<close> writes the cached cursor of the container and returns it;
  \<^verbatim>\<open>end()\<close> hands out a copy.
\<close>

definition preparePastTheEnd :: "Vector \<Rightarrow> Vector_ConstIterator \<times> Vector" where
  "preparePastTheEnd v =
     (let p = (pastTheEnd v)\<lparr>currentElement := ptr_add (elements v) (int (size_v v))\<rparr>
      in (p, v\<lparr>pastTheEnd := p\<rparr>))"

definition Vector_end :: "nat \<Rightarrow> Vector \<Rightarrow> Vector_ConstIterator \<times> Vector" where
  "Vector_end this v =
     (if Vector_isEmpty v then (createBeginAsEnd this v, v) else preparePastTheEnd v)"

subsection \<open>The public operations\<close>

text \<open>
  \<^verbatim>\<open>append\<close>: \<^verbatim>\<open>reallocateMemoryIfNeeded(); elements[size] = item; size++;\<close> The item is
  read after the reallocation.
\<close>

definition Vector_append :: "'a reference \<Rightarrow> Vector \<Rightarrow> 'a array_heap \<Rightarrow> (unit, Vector \<times> 'a array_heap) outcome" where
  "Vector_append item v h =
     (case reallocateMemoryIfNeeded v h of
        None \<Rightarrow> Undefined
      | Some (v1, h1) \<Rightarrow>
          (case read_reference item h1 of
             None \<Rightarrow> Undefined
           | Some x \<Rightarrow>
               (case store (ptr_add (elements v1) (int (size_v v1))) x h1 of
                  None \<Rightarrow> Undefined
                | Some h2 \<Rightarrow> Returns () (v1\<lparr>size_v := size_v v1 + 1\<rparr>, h2))))"

text \<open>\<^verbatim>\<open>prepend\<close>: the item is read after the reallocation and the shift.\<close>

definition Vector_prepend :: "'a reference \<Rightarrow> Vector \<Rightarrow> 'a array_heap \<Rightarrow> (unit, Vector \<times> 'a array_heap) outcome" where
  "Vector_prepend item v h =
     (case reallocateMemoryIfNeeded v h of
        None \<Rightarrow> Undefined
      | Some (v1, h1) \<Rightarrow>
          (case shiftElementsToRightFrom 0 v1 h1 of
             None \<Rightarrow> Undefined
           | Some h2 \<Rightarrow>
               (case read_reference item h2 of
                  None \<Rightarrow> Undefined
                | Some x \<Rightarrow>
                    (case store (ptr_add (elements v1) 0) x h2 of
                       None \<Rightarrow> Undefined
                     | Some h3 \<Rightarrow> Returns () (v1\<lparr>size_v := size_v v1 + 1\<rparr>, h3)))))"

text \<open>
  \<^verbatim>\<open>insert\<close>: the index is computed before the reallocation, as the source notes, from the
  cursor and the array its back-pointer leads to; the item is read after the shift.
\<close>

definition Vector_insert :: "Vector_objects \<Rightarrow> Vector_ConstIterator \<Rightarrow> 'a reference \<Rightarrow> Vector \<Rightarrow> 'a array_heap \<Rightarrow> (unit, Vector \<times> 'a array_heap) outcome" where
  "Vector_insert vs insertPosition item v h =
     (case calculateIndex vs insertPosition of
        None \<Rightarrow> Undefined
      | Some insertIndex \<Rightarrow>
          (case reallocateMemoryIfNeeded v h of
             None \<Rightarrow> Undefined
           | Some (v1, h1) \<Rightarrow>
               (case shiftElementsToRightFrom insertIndex v1 h1 of
                  None \<Rightarrow> Undefined
                | Some h2 \<Rightarrow>
                    (case read_reference item h2 of
                       None \<Rightarrow> Undefined
                     | Some x \<Rightarrow>
                         (case store (ptr_add (elements v1) (int insertIndex)) x h2 of
                            None \<Rightarrow> Undefined
                          | Some h3 \<Rightarrow> Returns () (v1\<lparr>size_v := size_v v1 + 1\<rparr>, h3))))))"

definition Vector_throwIfCollectionEmpty :: "exn \<Rightarrow> Vector \<Rightarrow> exn option" where
  "Vector_throwIfCollectionEmpty e v = (if Vector_isEmpty v then Some e else None)"

definition Vector_throwIfIteratorEqaulsEnd :: "Vector_ConstIterator \<Rightarrow> exn \<Rightarrow> exn option" where
  "Vector_throwIfIteratorEqaulsEnd iterator e = (if isEnd iterator then Some e else None)"

definition Vector_popFirst :: "Vector \<Rightarrow> 'a array_heap \<Rightarrow> ('a, Vector \<times> 'a array_heap) outcome" where
  "Vector_popFirst v h =
     (case Vector_throwIfCollectionEmpty logic_error v of
        Some e \<Rightarrow> Throws e (v, h)
      | None \<Rightarrow>
          (case load (ptr_add (elements v) 0) h of
             None \<Rightarrow> Undefined
           | Some x \<Rightarrow>
               (case shiftElementsToLeftUpTo 0 v h of
                  None \<Rightarrow> Undefined
                | Some h1 \<Rightarrow> Returns x (v\<lparr>size_v := size_sub (size_v v) 1\<rparr>, h1))))"

definition Vector_popLast :: "Vector \<Rightarrow> 'a array_heap \<Rightarrow> ('a, Vector \<times> 'a array_heap) outcome" where
  "Vector_popLast v h =
     (case Vector_throwIfCollectionEmpty logic_error v of
        Some e \<Rightarrow> Throws e (v, h)
      | None \<Rightarrow>
          (case load (ptr_add (elements v) (int (size_sub (size_v v) 1))) h of
             None \<Rightarrow> Undefined
           | Some x \<Rightarrow> Returns x (v\<lparr>size_v := size_sub (size_v v) 1\<rparr>, h)))"

definition Vector_erase :: "Vector_objects \<Rightarrow> Vector_ConstIterator \<Rightarrow> Vector \<Rightarrow> 'a array_heap \<Rightarrow> (unit, Vector \<times> 'a array_heap) outcome" where
  "Vector_erase vs position v h =
     (case Vector_throwIfCollectionEmpty out_of_range v of
        Some e \<Rightarrow> Throws e (v, h)
      | None \<Rightarrow>
          (case Vector_throwIfIteratorEqaulsEnd position out_of_range of
             Some e \<Rightarrow> Throws e (v, h)
           | None \<Rightarrow>
               (case calculateIndex vs position of
                  None \<Rightarrow> Undefined
                | Some i \<Rightarrow>
                    (case shiftElementsToLeftUpTo i v h of
                       None \<Rightarrow> Undefined
                     | Some h1 \<Rightarrow> Returns () (v\<lparr>size_v := size_sub (size_v v) 1\<rparr>, h1)))))"


subsection \<open>Construction from a list, move and destruction\<close>

text \<open>
  \<^verbatim>\<open>copyFromAndAppend\<close> for an initializer list: \<^verbatim>\<open>for (auto& el : collection) append(el);\<close>
  The elements of an initializer list live outside every array.
\<close>

fun Vector_copyFromAndAppend :: "'a list \<Rightarrow> Vector \<Rightarrow> 'a array_heap \<Rightarrow> (unit, Vector \<times> 'a array_heap) outcome" where
  "Vector_copyFromAndAppend [] v h = Returns () (v, h)"
| "Vector_copyFromAndAppend (el # rest) v h =
     (case Vector_append (Temporary el) v h of
        Returns u (v1, h1) \<Rightarrow> Vector_copyFromAndAppend rest v1 h1
      | Throws e s \<Rightarrow> Throws e s
      | Undefined \<Rightarrow> Undefined)"

text \<open>
  The loop of the driver's \<^verbatim>\<open>testPrepend\<close>, \<^verbatim>\<open>collection.prepend(i)\<close> for one value of the
  loop variable after the other, here for any sequence of values.
\<close>

fun Vector_prependAll :: "'a list \<Rightarrow> Vector \<Rightarrow> 'a array_heap \<Rightarrow> (unit, Vector \<times> 'a array_heap) outcome" where
  "Vector_prependAll [] v h = Returns () (v, h)"
| "Vector_prependAll (el # rest) v h =
     (case Vector_prepend (Temporary el) v h of
        Returns u (v1, h1) \<Rightarrow> Vector_prependAll rest v1 h1
      | Throws e s \<Rightarrow> Throws e s
      | Undefined \<Rightarrow> Undefined)"

text \<open>\<^verbatim>\<open>Vector(std::initializer_list<Type> l) : Vector(l.size())\<close>\<close>

definition Vector_ctor_list :: "'a list \<Rightarrow> nat \<Rightarrow> 'a array_heap \<Rightarrow> (unit, Vector \<times> 'a array_heap) outcome" where
  "Vector_ctor_list l this h =
     (let (v, h1) = Vector_ctor (length l) this h in Vector_copyFromAndAppend l v h1)"

text \<open>
  \<^verbatim>\<open>moveFrom(Vector& other)\<close>, on the objects at the addresses \<open>this\<close> and \<open>other\<close>, one
  assignment after the other:
  \<^verbatim>\<open>elements = other.elements; size = other.getSize(); capacity = other.getCapacity(); other.elements = nullptr; other.size = 0;\<close>
\<close>

definition Vector_moveFrom :: "nat \<Rightarrow> nat \<Rightarrow> Vector_objects \<Rightarrow> Vector_objects option" where
  "Vector_moveFrom this other vs =
     do { b0 \<leftarrow> vs other;
          vs1 \<leftarrow> update_Vector this (\<lambda>t. t\<lparr>elements := elements b0\<rparr>) vs;
          b1 \<leftarrow> vs1 other;
          vs2 \<leftarrow> update_Vector this (\<lambda>t. t\<lparr>size_v := Vector_getSize b1\<rparr>) vs1;
          b2 \<leftarrow> vs2 other;
          vs3 \<leftarrow> update_Vector this (\<lambda>t. t\<lparr>capacity := Vector_getCapacity b2\<rparr>) vs2;
          vs4 \<leftarrow> update_Vector other (\<lambda>t. t\<lparr>elements := Null\<rparr>) vs3;
          update_Vector other (\<lambda>t. t\<lparr>size_v := 0\<rparr>) vs4 }"


text \<open>
  \<^verbatim>\<open>operator=(Vector &&other)\<close>: \<^verbatim>\<open>if (elements != nullptr) delete [] elements; moveFrom(other);\<close>
\<close>

definition Vector_move_assign :: "nat \<Rightarrow> nat \<Rightarrow> Vector_objects \<Rightarrow> 'a array_heap \<Rightarrow> (Vector_objects \<times> 'a array_heap) option" where
  "Vector_move_assign this other vs h =
     do { t \<leftarrow> vs this;
          h1 \<leftarrow> (if elements t \<noteq> Null then delete_array (elements t) h else Some h);
          vs1 \<leftarrow> Vector_moveFrom this other vs;
          Some (vs1, h1) }"



subsection \<open>Forward traversal\<close>




section \<open>LinkedList.h: the doubly linked list\<close>

subsection \<open>Nodes\<close>

text \<open>
  A \<^verbatim>\<open>Node *\<close> is null (\<open>None\<close>) or an address of the free store. A \<^verbatim>\<open>Node\<close> has its two
  links; a \<^verbatim>\<open>ValueNode\<close> has a value as well (\<open>val\<close> is \<open>Some\<close>), and a plain \<^verbatim>\<open>Node\<close>, which
  the two guards are, has none.
\<close>

type_synonym node_ptr = "nat option"

record 'a Node =
  prev :: node_ptr
  nxt :: node_ptr
  val :: "'a option"

type_synonym 'a node_heap = "'a Node heap"

definition node_at :: "node_ptr \<Rightarrow> 'a node_heap \<Rightarrow> 'a Node option" where
  "node_at p h = (case p of None \<Rightarrow> None | Some a \<Rightarrow> cells h a)"

text \<open>\<^verbatim>\<open>p->prev\<close> and \<^verbatim>\<open>p->next\<close>, read and written; \<open>None\<close> when \<open>p\<close> is null or dangling.\<close>

definition get_prev :: "node_ptr \<Rightarrow> 'a node_heap \<Rightarrow> node_ptr option" where
  "get_prev p h = map_option prev (node_at p h)"

definition get_next :: "node_ptr \<Rightarrow> 'a node_heap \<Rightarrow> node_ptr option" where
  "get_next p h = map_option nxt (node_at p h)"

definition set_prev :: "node_ptr \<Rightarrow> node_ptr \<Rightarrow> 'a node_heap \<Rightarrow> 'a node_heap option" where
  "set_prev p q h = (case p of None \<Rightarrow> None
     | Some a \<Rightarrow> (case cells h a of None \<Rightarrow> None
         | Some n \<Rightarrow> Some (h\<lparr>cells := (cells h)(a \<mapsto> n\<lparr>prev := q\<rparr>)\<rparr>)))"

definition set_next :: "node_ptr \<Rightarrow> node_ptr \<Rightarrow> 'a node_heap \<Rightarrow> 'a node_heap option" where
  "set_next p q h = (case p of None \<Rightarrow> None
     | Some a \<Rightarrow> (case cells h a of None \<Rightarrow> None
         | Some n \<Rightarrow> Some (h\<lparr>cells := (cells h)(a \<mapsto> n\<lparr>nxt := q\<rparr>)\<rparr>)))"

definition new_Node :: "'a node_heap \<Rightarrow> nat \<times> 'a node_heap" where
  "new_Node h = alloc \<lparr>prev = None, nxt = None, val = None\<rparr> h"

definition new_ValueNode :: "'a \<Rightarrow> 'a node_heap \<Rightarrow> nat \<times> 'a node_heap" where
  "new_ValueNode x h = alloc \<lparr>prev = None, nxt = None, val = Some x\<rparr> h"

definition delete_Node :: "node_ptr \<Rightarrow> 'a node_heap \<Rightarrow> 'a node_heap option" where
  "delete_Node p h = (case p of None \<Rightarrow> Some h | Some a \<Rightarrow> free a h)"

text \<open>
  \<^verbatim>\<open>dynamic_cast<ValueNode*>(p)\<close> is null for a null pointer and for a plain \<^verbatim>\<open>Node\<close>;
  \<^verbatim>\<open>q->value\<close> reads the value of a \<^verbatim>\<open>ValueNode *\<close>.
\<close>

definition dynamic_cast_ValueNode :: "node_ptr \<Rightarrow> 'a node_heap \<Rightarrow> node_ptr option" where
  "dynamic_cast_ValueNode p h = (case p of None \<Rightarrow> Some None
     | Some a \<Rightarrow> (case cells h a of None \<Rightarrow> None
         | Some n \<Rightarrow> Some (if val n = None then None else p)))"

definition get_value :: "node_ptr \<Rightarrow> 'a node_heap \<Rightarrow> 'a option" where
  "get_value q h = (case node_at q h of None \<Rightarrow> None | Some n \<Rightarrow> val n)"

subsection \<open>The classes\<close>

text \<open>
  A \<^verbatim>\<open>LinkedList *\<close> is null or the address of a \<^verbatim>\<open>LinkedList\<close> object; the objects are
  kept in a store \<open>ls\<close>, as those of the array are. \<^verbatim>\<open>LinkedList::ConstIterator\<close> has the
  node it stands on and the back-pointer to its list; \<^verbatim>\<open>LinkedList::Iterator\<close> has the same
  fields.
\<close>

type_synonym list_ptr = "nat option"

record LinkedList_ConstIterator =
  currentNode :: node_ptr
  collection_l :: list_ptr

record LinkedList =
  firstGuard :: node_ptr
  lastGuard :: node_ptr
  size_l :: nat
  endIterator :: LinkedList_ConstIterator

type_synonym LinkedList_objects = "nat \<Rightarrow> LinkedList option"

definition LinkedList_at :: "LinkedList_objects \<Rightarrow> list_ptr \<Rightarrow> LinkedList option" where
  "LinkedList_at ls p = (case p of None \<Rightarrow> None | Some a \<Rightarrow> ls a)"

definition update_LinkedList :: "nat \<Rightarrow> (LinkedList \<Rightarrow> LinkedList) \<Rightarrow> LinkedList_objects \<Rightarrow> LinkedList_objects option" where
  "update_LinkedList a f ls = (case ls a of None \<Rightarrow> None | Some l \<Rightarrow> Some (ls(a \<mapsto> f l)))"

definition getCurrentNode :: "LinkedList_ConstIterator \<Rightarrow> node_ptr" where
  "getCurrentNode it = currentNode it"

definition collapseNodes :: "node_ptr \<Rightarrow> node_ptr \<Rightarrow> 'a node_heap \<Rightarrow> 'a node_heap option" where
  "collapseNodes left right h =
     (case set_next left right h of None \<Rightarrow> None | Some h1 \<Rightarrow> set_prev right left h1)"

definition insertBetween :: "node_ptr \<Rightarrow> node_ptr \<Rightarrow> node_ptr \<Rightarrow> 'a node_heap \<Rightarrow> 'a node_heap option" where
  "insertBetween left right nodeToInsert h =
     do { h1 \<leftarrow> set_next left nodeToInsert h;
          h2 \<leftarrow> set_prev nodeToInsert left h1;
          h3 \<leftarrow> set_next nodeToInsert right h2;
          set_prev right nodeToInsert h3 }"

text \<open>
  \<^verbatim>\<open>LinkedList()\<close>, for the object at the address \<open>this\<close>. As for the array, a member
  function that works on the fields of \<^verbatim>\<open>*this\<close> and on the nodes only is a function of
  the fields \<open>l\<close> and the free store \<open>h\<close>; it has the address \<open>this\<close> where it stores it in a
  cursor, and the store \<open>ls\<close> of the list objects where it follows a cursor's back-pointer.
\<close>

definition LinkedList_ctor :: "nat \<Rightarrow> 'a node_heap \<Rightarrow> (LinkedList \<times> 'a node_heap) option" where
  "LinkedList_ctor this h =
     (let (fg, h1) = new_Node h;
          (lg, h2) = new_Node h1;
          l = \<lparr>firstGuard = Some fg, lastGuard = Some lg, size_l = 0,
               endIterator = \<lparr>currentNode = Some lg, collection_l = Some this\<rparr>\<rparr>
      in case collapseNodes (firstGuard l) (lastGuard l) h2 of
           None \<Rightarrow> None
         | Some h3 \<Rightarrow> Some (l, h3))"

definition LinkedList_isEmpty :: "LinkedList \<Rightarrow> bool" where
  "LinkedList_isEmpty l = (size_l l = 0)"

definition LinkedList_getSize :: "LinkedList \<Rightarrow> nat" where
  "LinkedList_getSize l = size_l l"

definition getFirst :: "LinkedList \<Rightarrow> 'a node_heap \<Rightarrow> node_ptr option" where
  "getFirst l h = get_next (firstGuard l) h"

definition getLast :: "LinkedList \<Rightarrow> 'a node_heap \<Rightarrow> node_ptr option" where
  "getLast l h = get_prev (lastGuard l) h"

definition getFirstValueNode :: "LinkedList \<Rightarrow> 'a node_heap \<Rightarrow> node_ptr option" where
  "getFirstValueNode l h = do { p \<leftarrow> get_next (firstGuard l) h; dynamic_cast_ValueNode p h }"

definition getLastValueNode :: "LinkedList \<Rightarrow> 'a node_heap \<Rightarrow> node_ptr option" where
  "getLastValueNode l h = do { p \<leftarrow> get_prev (lastGuard l) h; dynamic_cast_ValueNode p h }"

text \<open>\<^verbatim>\<open>deleteNode\<close>: \<^verbatim>\<open>delete nodeToDestroy; size--;\<close>\<close>

definition deleteNode :: "node_ptr \<Rightarrow> LinkedList \<Rightarrow> 'a node_heap \<Rightarrow> (LinkedList \<times> 'a node_heap) option" where
  "deleteNode nodeToDestroy l h =
     (case delete_Node nodeToDestroy h of
        None \<Rightarrow> None
      | Some h1 \<Rightarrow> Some (l\<lparr>size_l := size_sub (size_l l) 1\<rparr>, h1))"

definition collapseList :: "LinkedList \<Rightarrow> 'a node_heap \<Rightarrow> (LinkedList \<times> 'a node_heap) option" where
  "collapseList l h =
     (case collapseNodes (firstGuard l) (lastGuard l) h of
        None \<Rightarrow> None
      | Some h1 \<Rightarrow> Some (l\<lparr>size_l := 0\<rparr>, h1))"

definition LinkedList_throwIfCollectionEmpty :: "exn \<Rightarrow> LinkedList \<Rightarrow> exn option" where
  "LinkedList_throwIfCollectionEmpty e l = (if LinkedList_isEmpty l then Some e else None)"

subsection \<open>The cursor of the list\<close>

definition LinkedList_eq :: "LinkedList_ConstIterator \<Rightarrow> LinkedList_ConstIterator \<Rightarrow> bool" where
  "LinkedList_eq it other = (currentNode it = currentNode other)"


text \<open>\<^verbatim>\<open>begin()\<close>, \<^verbatim>\<open>cbegin()\<close> and \<^verbatim>\<open>end()\<close>, \<^verbatim>\<open>cend()\<close> compute the same cursors.\<close>

definition LinkedList_begin :: "nat \<Rightarrow> LinkedList \<Rightarrow> 'a node_heap \<Rightarrow> LinkedList_ConstIterator option" where
  "LinkedList_begin this l h =
     (if LinkedList_isEmpty l then Some (endIterator l)
      else map_option (\<lambda>p. \<lparr>currentNode = p, collection_l = Some this\<rparr>) (getFirst l h))"

definition LinkedList_end :: "LinkedList \<Rightarrow> LinkedList_ConstIterator" where
  "LinkedList_end l = endIterator l"

text \<open>
  \<^verbatim>\<open>throwIfBegin\<close> and \<^verbatim>\<open>throwIfEnd\<close> compare the cursor with \<^verbatim>\<open>collection->begin()\<close> and
  \<^verbatim>\<open>collection->end()\<close>, of the list the back-pointer of the cursor leads to. The outer
  \<open>None\<close> is undefined behaviour: a null or dangling back-pointer, or a dangling first
  guard.
\<close>

definition LinkedList_throwIfBegin :: "LinkedList_objects \<Rightarrow> 'a node_heap \<Rightarrow> LinkedList_ConstIterator \<Rightarrow> exn option option" where
  "LinkedList_throwIfBegin ls h it =
     (case collection_l it of
        None \<Rightarrow> None
      | Some c \<Rightarrow>
          (case ls c of
             None \<Rightarrow> None
           | Some l \<Rightarrow>
               (case LinkedList_begin c l h of
                  None \<Rightarrow> None
                | Some b \<Rightarrow> Some (if LinkedList_eq it b then Some out_of_range else None))))"

definition LinkedList_throwIfEnd :: "LinkedList_objects \<Rightarrow> LinkedList_ConstIterator \<Rightarrow> exn option option" where
  "LinkedList_throwIfEnd ls it =
     (case LinkedList_at ls (collection_l it) of
        None \<Rightarrow> None
      | Some l \<Rightarrow> Some (if LinkedList_eq it (LinkedList_end l) then Some out_of_range else None))"

definition LinkedList_throwIfIteratorEqaulsEnd :: "LinkedList \<Rightarrow> LinkedList_ConstIterator \<Rightarrow> exn \<Rightarrow> exn option" where
  "LinkedList_throwIfIteratorEqaulsEnd l iterator e =
     (if LinkedList_eq iterator (endIterator l) then Some e else None)"


text \<open>\<^verbatim>\<open>operator++()\<close>\<close>

definition LinkedList_preinc :: "LinkedList_objects \<Rightarrow> 'a node_heap \<Rightarrow> LinkedList_ConstIterator \<Rightarrow> (unit, LinkedList_ConstIterator) outcome" where
  "LinkedList_preinc ls h it =
     (case LinkedList_throwIfEnd ls it of
        None \<Rightarrow> Undefined
      | Some (Some e) \<Rightarrow> Throws e it
      | Some None \<Rightarrow>
          (case get_next (currentNode it) h of
             None \<Rightarrow> Undefined
           | Some p \<Rightarrow> Returns () (it\<lparr>currentNode := p\<rparr>)))"


text \<open>\<^verbatim>\<open>operator--()\<close>\<close>

definition LinkedList_predec :: "LinkedList_objects \<Rightarrow> 'a node_heap \<Rightarrow> LinkedList_ConstIterator \<Rightarrow> (unit, LinkedList_ConstIterator) outcome" where
  "LinkedList_predec ls h it =
     (case LinkedList_throwIfBegin ls h it of
        None \<Rightarrow> Undefined
      | Some (Some e) \<Rightarrow> Throws e it
      | Some None \<Rightarrow>
          (case get_prev (currentNode it) h of
             None \<Rightarrow> Undefined
           | Some p \<Rightarrow> Returns () (it\<lparr>currentNode := p\<rparr>)))"

text \<open>
  \<^verbatim>\<open>ConstIterator::operator--(int)\<close>. The source reads
  \<^verbatim>\<open>ConstIterator old = *this; operator++(); return old;\<close>
\<close>

definition LinkedList_ConstIterator_postdec :: "LinkedList_objects \<Rightarrow> 'a node_heap \<Rightarrow> LinkedList_ConstIterator \<Rightarrow> (LinkedList_ConstIterator, LinkedList_ConstIterator) outcome" where
  "LinkedList_ConstIterator_postdec ls h it =
     (let old = it
      in case LinkedList_preinc ls h it of
           Returns u it1 \<Rightarrow> Returns old it1
         | Throws e it1 \<Rightarrow> Throws e it1
         | Undefined \<Rightarrow> Undefined)"

text \<open>
  \<^verbatim>\<open>Iterator::operator--(int)\<close>. The source reads
  \<^verbatim>\<open>auto result = *this; ConstIterator::operator--(); return result;\<close>
\<close>

definition LinkedList_Iterator_postdec :: "LinkedList_objects \<Rightarrow> 'a node_heap \<Rightarrow> LinkedList_ConstIterator \<Rightarrow> (LinkedList_ConstIterator, LinkedList_ConstIterator) outcome" where
  "LinkedList_Iterator_postdec ls h it =
     (let result = it
      in case LinkedList_predec ls h it of
           Returns u it1 \<Rightarrow> Returns result it1
         | Throws e it1 \<Rightarrow> Throws e it1
         | Undefined \<Rightarrow> Undefined)"


fun walk_prev :: "nat \<Rightarrow> node_ptr \<Rightarrow> 'a node_heap \<Rightarrow> node_ptr option" where
  "walk_prev 0 node h = Some node"
| "walk_prev (Suc k) node h =
     (case get_prev node h of None \<Rightarrow> None | Some p \<Rightarrow> walk_prev k p h)"


definition LinkedList_minus :: "'a node_heap \<Rightarrow> LinkedList_ConstIterator \<Rightarrow> int \<Rightarrow> LinkedList_ConstIterator option" where
  "LinkedList_minus h it d =
     map_option (\<lambda>p. \<lparr>currentNode = p, collection_l = collection_l it\<rparr>)
       (walk_prev (nat d) (currentNode it) h)"

subsection \<open>The public operations\<close>

text \<open>
  \<^verbatim>\<open>append\<close>, \<^verbatim>\<open>prepend\<close> and \<^verbatim>\<open>insert\<close> start with \<^verbatim>\<open>new ValueNode(item)\<close>, which copies
  the item before anything is changed: \<open>item\<close> is the value the reference has when the
  member function is called.
\<close>

definition LinkedList_append :: "'a \<Rightarrow> LinkedList \<Rightarrow> 'a node_heap \<Rightarrow> (unit, LinkedList \<times> 'a node_heap) outcome" where
  "LinkedList_append item l h =
     (let (nodeToAppend, h1) = new_ValueNode item h
      in case do { p \<leftarrow> getLast l h1; insertBetween p (lastGuard l) (Some nodeToAppend) h1 } of
           None \<Rightarrow> Undefined
         | Some h2 \<Rightarrow> Returns () (l\<lparr>size_l := size_l l + 1\<rparr>, h2))"

definition LinkedList_prepend :: "'a \<Rightarrow> LinkedList \<Rightarrow> 'a node_heap \<Rightarrow> (unit, LinkedList \<times> 'a node_heap) outcome" where
  "LinkedList_prepend item l h =
     (let (nodeToPrepend, h1) = new_ValueNode item h
      in case do { p \<leftarrow> getFirst l h1; insertBetween (firstGuard l) p (Some nodeToPrepend) h1 } of
           None \<Rightarrow> Undefined
         | Some h2 \<Rightarrow> Returns () (l\<lparr>size_l := size_l l + 1\<rparr>, h2))"

definition LinkedList_insert :: "LinkedList_ConstIterator \<Rightarrow> 'a \<Rightarrow> LinkedList \<Rightarrow> 'a node_heap \<Rightarrow> (unit, LinkedList \<times> 'a node_heap) outcome" where
  "LinkedList_insert insertPosition item l h =
     (let (nodeToInsert, h1) = new_ValueNode item h;
          right = getCurrentNode insertPosition
      in case do { left \<leftarrow> get_prev right h1; insertBetween left right (Some nodeToInsert) h1 } of
           None \<Rightarrow> Undefined
         | Some h2 \<Rightarrow> Returns () (l\<lparr>size_l := size_l l + 1\<rparr>, h2))"

definition LinkedList_popFirst :: "LinkedList \<Rightarrow> 'a node_heap \<Rightarrow> ('a, LinkedList \<times> 'a node_heap) outcome" where
  "LinkedList_popFirst l h =
     (case LinkedList_throwIfCollectionEmpty logic_error l of
        Some e \<Rightarrow> Throws e (l, h)
      | None \<Rightarrow>
          (case do { first \<leftarrow> getFirstValueNode l h;
                     result \<leftarrow> get_value first h;
                     p \<leftarrow> get_next first h;
                     h1 \<leftarrow> collapseNodes (firstGuard l) p h;
                     s \<leftarrow> deleteNode first l h1;
                     Some (result, s) } of
             None \<Rightarrow> Undefined
           | Some (result, s) \<Rightarrow> Returns result s))"

definition LinkedList_popLast :: "LinkedList \<Rightarrow> 'a node_heap \<Rightarrow> ('a, LinkedList \<times> 'a node_heap) outcome" where
  "LinkedList_popLast l h =
     (case LinkedList_throwIfCollectionEmpty logic_error l of
        Some e \<Rightarrow> Throws e (l, h)
      | None \<Rightarrow>
          (case do { lastNode \<leftarrow> getLastValueNode l h;
                     result \<leftarrow> get_value lastNode h;
                     p \<leftarrow> get_prev lastNode h;
                     h1 \<leftarrow> collapseNodes p (lastGuard l) h;
                     s \<leftarrow> deleteNode lastNode l h1;
                     Some (result, s) } of
             None \<Rightarrow> Undefined
           | Some (result, s) \<Rightarrow> Returns result s))"

definition LinkedList_erase :: "LinkedList_ConstIterator \<Rightarrow> LinkedList \<Rightarrow> 'a node_heap \<Rightarrow> (unit, LinkedList \<times> 'a node_heap) outcome" where
  "LinkedList_erase possition l h =
     (case LinkedList_throwIfCollectionEmpty out_of_range l of
        Some e \<Rightarrow> Throws e (l, h)
      | None \<Rightarrow>
          (case LinkedList_throwIfIteratorEqaulsEnd l possition out_of_range of
             Some e \<Rightarrow> Throws e (l, h)
           | None \<Rightarrow>
               (let nodeToErase = getCurrentNode possition
                in case do { p \<leftarrow> get_prev nodeToErase h;
                             q \<leftarrow> get_next nodeToErase h;
                             h1 \<leftarrow> collapseNodes p q h;
                             deleteNode nodeToErase l h1 } of
                     None \<Rightarrow> Undefined
                   | Some s \<Rightarrow> Returns () s)))"




text \<open>
  \<^verbatim>\<open>deleteList\<close>: nothing to do when the guards point at each other; otherwise
  \<^verbatim>\<open>for (node = getFirst(); node != lastGuard;) { old = node; node = node->next; delete old; }\<close>
  and \<^verbatim>\<open>collapseList()\<close>.
\<close>

partial_function (option) deleteList_loop ::
  "node_ptr \<Rightarrow> node_ptr \<Rightarrow> 'a node_heap \<Rightarrow> 'a node_heap option option" where
  "deleteList_loop lastG node h =
     (if node \<noteq> lastG
      then (case get_next node h of
              None \<Rightarrow> Some None
            | Some p \<Rightarrow>
                (case delete_Node node h of
                   None \<Rightarrow> Some None
                 | Some h1 \<Rightarrow> deleteList_loop lastG p h1))
      else Some (Some h))"

text \<open>
  In the results of \<open>deleteList\<close>, of the destructor and of the move assignment the outer
  \<open>None\<close> is a loop that never ends and the inner \<open>None\<close> is undefined behaviour.
\<close>

definition deleteList :: "LinkedList \<Rightarrow> 'a node_heap \<Rightarrow> (LinkedList \<times> 'a node_heap) option option" where
  "deleteList l h =
     (case get_next (firstGuard l) h of
        None \<Rightarrow> Some None
      | Some p \<Rightarrow>
          (case (if p = lastGuard l then get_prev (lastGuard l) h else Some None) of
             None \<Rightarrow> Some None
           | Some q \<Rightarrow>
               if p = lastGuard l \<and> q = firstGuard l then Some (Some (l, h))
               else (case getFirst l h of
                       None \<Rightarrow> Some None
                     | Some node \<Rightarrow>
                         (case deleteList_loop (lastGuard l) node h of
                            None \<Rightarrow> None
                          | Some None \<Rightarrow> Some None
                          | Some (Some h1) \<Rightarrow> Some (collapseList l h1)))))"


text \<open>
  \<^verbatim>\<open>moveFrom(LinkedList& other)\<close>, on the objects at the addresses \<open>this\<close> and \<open>other\<close>:
  \<^verbatim>\<open>collapseNodes(firstGuard, other.getFirst()); collapseNodes(other.getLast(), lastGuard); size = other.size; other.collapseList();\<close>
\<close>

definition LinkedList_moveFrom :: "nat \<Rightarrow> nat \<Rightarrow> LinkedList_objects \<Rightarrow> 'a node_heap \<Rightarrow> (LinkedList_objects \<times> 'a node_heap) option" where
  "LinkedList_moveFrom this other ls h =
     do { t \<leftarrow> ls this;
          b \<leftarrow> ls other;
          p \<leftarrow> getFirst b h;
          h1 \<leftarrow> collapseNodes (firstGuard t) p h;
          q \<leftarrow> getLast b h1;
          h2 \<leftarrow> collapseNodes q (lastGuard t) h1;
          ls1 \<leftarrow> update_LinkedList this (\<lambda>t. t\<lparr>size_l := size_l b\<rparr>) ls;
          b1 \<leftarrow> ls1 other;
          (b2, h3) \<leftarrow> collapseList b1 h2;
          Some (ls1(other \<mapsto> b2), h3) }"


text \<open>
  \<^verbatim>\<open>operator=(LinkedList &&other)\<close>: \<^verbatim>\<open>if (!isEmpty()) deleteList(); moveFrom(other);\<close>
\<close>

definition LinkedList_move_assign :: "nat \<Rightarrow> nat \<Rightarrow> LinkedList_objects \<Rightarrow> 'a node_heap \<Rightarrow> (LinkedList_objects \<times> 'a node_heap) option option" where
  "LinkedList_move_assign this other ls h =
     (case ls this of
        None \<Rightarrow> Some None
      | Some t \<Rightarrow>
          (case (if \<not> LinkedList_isEmpty t then deleteList t h else Some (Some (t, h))) of
             None \<Rightarrow> None
           | Some None \<Rightarrow> Some None
           | Some (Some (t1, h1)) \<Rightarrow> Some (LinkedList_moveFrom this other (ls(this \<mapsto> t1)) h1)))"

subsection \<open>Forward traversal\<close>



text \<open>\<^verbatim>\<open>copyFrom\<close> for an initializer list, and \<^verbatim>\<open>LinkedList(std::initializer_list<Type> l)\<close>\<close>

fun LinkedList_copyFrom :: "'a list \<Rightarrow> LinkedList \<Rightarrow> 'a node_heap \<Rightarrow> (unit, LinkedList \<times> 'a node_heap) outcome" where
  "LinkedList_copyFrom [] l h = Returns () (l, h)"
| "LinkedList_copyFrom (el # rest) l h =
     (case LinkedList_append el l h of
        Returns u (l1, h1) \<Rightarrow> LinkedList_copyFrom rest l1 h1
      | Throws e s \<Rightarrow> Throws e s
      | Undefined \<Rightarrow> Undefined)"

text \<open>The loop of the driver's \<^verbatim>\<open>testPrepend\<close>, for any sequence of items.\<close>

fun LinkedList_prependAll :: "'a list \<Rightarrow> LinkedList \<Rightarrow> 'a node_heap \<Rightarrow> (unit, LinkedList \<times> 'a node_heap) outcome" where
  "LinkedList_prependAll [] l h = Returns () (l, h)"
| "LinkedList_prependAll (el # rest) l h =
     (case LinkedList_prepend el l h of
        Returns u (l1, h1) \<Rightarrow> LinkedList_prependAll rest l1 h1
      | Throws e s \<Rightarrow> Throws e s
      | Undefined \<Rightarrow> Undefined)"

definition LinkedList_ctor_list :: "'a list \<Rightarrow> nat \<Rightarrow> 'a node_heap \<Rightarrow> (unit, LinkedList \<times> 'a node_heap) outcome" where
  "LinkedList_ctor_list xs this h =
     (case LinkedList_ctor this h of
        None \<Rightarrow> Undefined
      | Some (l, h1) \<Rightarrow> LinkedList_copyFrom xs l h1)"


section \<open>What a container holds\<close>

text \<open>The free store before anything is allocated.\<close>

definition empty_heap :: "'c heap" where
  "empty_heap = \<lparr>cells = (\<lambda>a. None), brk = 0\<rparr>"

subsection \<open>The array\<close>

text \<open>
  \<open>Vector_rep h v xs\<close>: in the free store \<open>h\<close> the array \<open>v\<close> owns a buffer of
  \<open>capacity v\<close> cells whose first \<open>size_v v\<close> cells hold the elements \<open>xs\<close>, in order,
  and its cached cursor \<open>pastTheEnd\<close> has the tag it was constructed with.
\<close>

definition Vector_rep :: "'a array_heap \<Rightarrow> Vector \<Rightarrow> 'a list \<Rightarrow> bool" where
  "Vector_rep h v xs =
     (case elements v of
        Null \<Rightarrow> False
      | Ptr b i \<Rightarrow>
          i = 0 \<and> b < brk h \<and>
          (case cells h b of
             None \<Rightarrow> False
           | Some cs \<Rightarrow>
               length cs = capacity v \<and> size_v v = length xs \<and>
               length xs \<le> capacity v \<and> take (length xs) cs = map Some xs \<and>
               iteratorType (pastTheEnd v) = END))"

text \<open>
  An array that has been moved from owns no buffer and has size 0; its capacity is left
  as it was. \<open>Vector_holds h v xs\<close>: the array owns a buffer with the elements \<open>xs\<close>, or it
  has been moved from and \<open>xs\<close> is empty.
\<close>

definition Vector_moved_from :: "Vector \<Rightarrow> bool" where
  "Vector_moved_from v =
     (elements v = Null \<and> size_v v = 0 \<and> iteratorType (pastTheEnd v) = END)"


text \<open>
  \<open>buffer_frame p h h'\<close>: the free store \<open>h'\<close> is \<open>h\<close> but for the array that \<open>p\<close> points
  into and for arrays allocated since.
\<close>

definition block_of :: "ptr \<Rightarrow> nat option" where
  "block_of p = (case p of Null \<Rightarrow> None | Ptr b i \<Rightarrow> Some b)"

definition buffer_frame :: "ptr \<Rightarrow> 'a array_heap \<Rightarrow> 'a array_heap \<Rightarrow> bool" where
  "buffer_frame p h h' =
     (brk h \<le> brk h' \<and> (\<forall>c. c < brk h \<and> block_of p \<noteq> Some c \<longrightarrow> cells h' c = cells h c))"

text \<open>
  A cursor that stands at index \<open>i\<close> of the buffer of \<open>v\<close>, whatever its tag. That the
  cursor is one of the array \<open>v\<close> is \<open>Vector_at vs (collection_v it) = Some v\<close>: its
  back-pointer leads to \<open>v\<close>.
\<close>

definition Vector_cursor_at :: "Vector \<Rightarrow> Vector_ConstIterator \<Rightarrow> nat \<Rightarrow> bool" where
  "Vector_cursor_at v it i = (currentElement it = ptr_add (elements v) (int i))"

text \<open>
  An array of capacity 3 that holds 1, 2, 3, as \<^verbatim>\<open>Vector<nat>{1, 2, 3}\<close> builds it at the
  address 0, and the store with this one object.
\<close>

definition abc_heap :: "nat array_heap" where
  "abc_heap = \<lparr>cells = (\<lambda>a. None)(0 \<mapsto> [Some 1, Some 2, Some 3]), brk = 1\<rparr>"

definition abc_vector :: Vector where
  "abc_vector = \<lparr>elements = Ptr 0 0, size_v = 3, capacity = 3,
                   pastTheEnd = \<lparr>currentElement = Ptr 0 0, collection_v = Some 0,
                                 iteratorType = END\<rparr>\<rparr>"

definition abc_objects :: Vector_objects where
  "abc_objects = (\<lambda>a. None)(0 \<mapsto> abc_vector)"

subsection \<open>The list\<close>

text \<open>
  \<open>link f h a\<close> reads the link \<open>f\<close> (\<open>nxt\<close> or \<open>prev\<close>) of the node at address \<open>a\<close>;
  it is \<open>None\<close> when nothing is allocated there. \<open>chain g p as q\<close>: following the
  link \<open>g\<close> from the node at \<open>p\<close> visits the nodes at \<open>as\<close>, in order, and then reaches
  \<open>q\<close>; \<open>p\<close> and the nodes of \<open>as\<close> are allocated.
\<close>

definition link :: "('a Node \<Rightarrow> node_ptr) \<Rightarrow> 'a node_heap \<Rightarrow> nat \<Rightarrow> node_ptr option" where
  "link f h a = map_option f (cells h a)"

fun chain :: "(nat \<Rightarrow> node_ptr option) \<Rightarrow> nat \<Rightarrow> nat list \<Rightarrow> nat \<Rightarrow> bool" where
  "chain g p [] q = (g p = Some (Some q))"
| "chain g p (a # as) q = (g p = Some (Some a) \<and> chain g a as q)"

definition val_at :: "'a node_heap \<Rightarrow> nat \<Rightarrow> 'a option" where
  "val_at h a = (case cells h a of None \<Rightarrow> None | Some n \<Rightarrow> val n)"

text \<open>
  \<open>LinkedList_rep h l as xs\<close>: the data model of the list. The guards of \<open>l\<close> are two plain
  nodes; \<open>next\<close> leads from the first guard through the value nodes at the addresses \<open>as\<close>
  to the last guard, and \<open>prev\<close> leads back the same way; the value nodes hold \<open>xs\<close>, in
  order; \<open>size\<close> is their number; the cached end cursor stands on the last guard.
\<close>

definition LinkedList_rep :: "'a node_heap \<Rightarrow> LinkedList \<Rightarrow> nat list \<Rightarrow> 'a list \<Rightarrow> bool" where
  "LinkedList_rep h l as xs =
     (case firstGuard l of
        None \<Rightarrow> False
      | Some fg \<Rightarrow>
          (case lastGuard l of
             None \<Rightarrow> False
           | Some lg \<Rightarrow>
               distinct (fg # as @ [lg]) \<and>
               list_all (\<lambda>a. a < brk h) (fg # as @ [lg]) \<and>
               chain (link nxt h) fg as lg \<and>
               chain (link prev h) lg (rev as) fg \<and>
               val_at h fg = None \<and> val_at h lg = None \<and>
               map (val_at h) as = map Some xs \<and>
               size_l l = length xs \<and>
               currentNode (endIterator l) = Some lg))"

text \<open>
  A list that holds 1, 2, 3, as \<^verbatim>\<open>LinkedList<nat>{1, 2, 3}\<close> builds it at the address 0,
  and the store with this one object.
\<close>

definition abc_nodes :: "nat node_heap" where
  "abc_nodes =
     \<lparr>cells = (\<lambda>a. None)
        (0 \<mapsto> \<lparr>prev = None, nxt = Some 2, val = None\<rparr>,
         1 \<mapsto> \<lparr>prev = Some 4, nxt = None, val = None\<rparr>,
         2 \<mapsto> \<lparr>prev = Some 0, nxt = Some 3, val = Some 1\<rparr>,
         3 \<mapsto> \<lparr>prev = Some 2, nxt = Some 4, val = Some 2\<rparr>,
         4 \<mapsto> \<lparr>prev = Some 3, nxt = Some 1, val = Some 3\<rparr>),
      brk = 5\<rparr>"

definition abc_list :: LinkedList where
  "abc_list = \<lparr>firstGuard = Some 0, lastGuard = Some 1, size_l = 3,
                 endIterator = \<lparr>currentNode = Some 1, collection_l = Some 0\<rparr>\<rparr>"

definition abc_lists :: LinkedList_objects where
  "abc_lists = (\<lambda>a. None)(0 \<mapsto> abc_list)"

text \<open>
  The same free store after \<^verbatim>\<open>LinkedList<nat> b;\<close> has been constructed next, at the
  address 1: the empty list \<open>nil_list\<close> has its guards at the nodes 5 and 6.
\<close>

definition abc_nil_nodes :: "nat node_heap" where
  "abc_nil_nodes =
     \<lparr>cells = (cells abc_nodes)
        (5 \<mapsto> \<lparr>prev = None, nxt = Some 6, val = None\<rparr>,
         6 \<mapsto> \<lparr>prev = Some 5, nxt = None, val = None\<rparr>),
      brk = 7\<rparr>"

definition nil_list :: LinkedList where
  "nil_list = \<lparr>firstGuard = Some 5, lastGuard = Some 6, size_l = 0,
                 endIterator = \<lparr>currentNode = Some 6, collection_l = Some 1\<rparr>\<rparr>"


text \<open>
  A cursor that stands at position \<open>i\<close> of the list: on the \<open>i\<close>-th value node, or on the
  last guard when \<open>i\<close> is the number of value nodes. That the cursor is one of the list
  \<open>l\<close> is \<open>LinkedList_at ls (collection_l it) = Some l\<close>.
\<close>

definition LinkedList_cursor_at :: "LinkedList \<Rightarrow> nat list \<Rightarrow> LinkedList_ConstIterator \<Rightarrow> nat \<Rightarrow> bool" where
  "LinkedList_cursor_at l as it i =
     (i \<le> length as \<and> currentNode it = (map Some as @ [lastGuard l]) ! i)"
section \<open>Properties of the array\<close>

subsection \<open>Pointers, cells and the four loops\<close>


declare reallocate_loop.simps [simp del] shiftLeft_loop.simps [simp del] shiftRight_loop.simps [simp del] eraseRange_loop.simps [simp del]


lemma reallocate_loop_stop [simp]: "\<not> i < n \<Longrightarrow> reallocate_loop i n els old h = Some h"
  by (simp add: reallocate_loop.simps)

lemma shiftLeft_loop_stop [simp]: "\<not> i < bound \<Longrightarrow> shiftLeft_loop i bound els h = Some h"
  by (simp add: shiftLeft_loop.simps)

lemma shiftRight_loop_stop [simp]: "\<not> beginIndex < i \<Longrightarrow> shiftRight_loop i beginIndex els h = Some h"
  by (simp add: shiftRight_loop.simps)

lemma eraseRange_loop_stop [simp]: "\<not> i < n \<Longrightarrow> eraseRange_loop i j n els h = Some h"
  by (simp add: eraseRange_loop.simps)

lemma size_cast_int [simp]: "size_cast (int i) = i"
  by (simp add: size_cast_def)

lemma size_sub_le [simp]: "b \<le> a \<Longrightarrow> size_sub a b = a - b"
  by (simp add: size_sub_def)

lemma size_sub_Suc0 [simp]: "n \<noteq> 0 \<Longrightarrow> size_sub n (Suc 0) = n - Suc 0"
  by (simp add: size_sub_def)

lemma ptr_add_Ptr [simp]: "ptr_add (Ptr b i) d = Ptr b (i + d)"
  by (simp add: ptr_add_def)

lemma ptr_diff_Ptr [simp]: "ptr_diff (Ptr b i) (Ptr b j) = Some (i - j)"
  by (simp add: ptr_diff_def)

lemma load_block:
  "cells h b = Some cs \<Longrightarrow> load (Ptr b (int i)) h = (if i < length cs then cs ! i else None)"
  by (simp add: load_def)

lemma store_block:
  "cells h b = Some cs \<Longrightarrow> i < length cs \<Longrightarrow>
   store (Ptr b (int i)) x h = Some (h\<lparr>cells := (cells h)(b \<mapsto> cs[i := Some x])\<rparr>)"
  by (simp add: store_def)

lemma store_block_out:
  "cells h b = Some cs \<Longrightarrow> \<not> i < length cs \<Longrightarrow> store (Ptr b (int i)) x h = None"
  by (simp add: store_def)

lemma copy_elem_block:
  "cells h b = Some cs \<Longrightarrow> i < length cs \<Longrightarrow> j < length cs \<Longrightarrow> cs ! j = Some x \<Longrightarrow>
   copy_elem (Ptr b (int i)) (Ptr b (int j)) h = Some (h\<lparr>cells := (cells h)(b \<mapsto> cs[i := Some x])\<rparr>)"
  by (simp add: copy_elem_def load_block store_block)

lemma heap_upd_upd [simp]:
  "(h\<lparr>cells := (cells h)(b \<mapsto> cs)\<rparr>)\<lparr>cells := (cells (h\<lparr>cells := (cells h)(b \<mapsto> cs)\<rparr>))(b \<mapsto> ds)\<rparr>
   = h\<lparr>cells := (cells h)(b \<mapsto> ds)\<rparr>"
  by simp

lemma shiftLeft_loop_spec:
  assumes "cells h b = Some cs" "bound < length cs" "i \<le> bound"
    and "\<forall>k. i < k \<and> k \<le> bound \<longrightarrow> cs ! k \<noteq> None"
  shows "\<exists>cs'. shiftLeft_loop i bound (Ptr b 0) h = Some (h\<lparr>cells := (cells h)(b \<mapsto> cs')\<rparr>)
            \<and> length cs' = length cs
            \<and> (\<forall>k<length cs. cs' ! k = (if i \<le> k \<and> k < bound then cs ! Suc k else cs ! k))"
  using assms
proof (induction "bound - i" arbitrary: i h cs)
  case 0
  then have "i = bound" by simp
  then show ?case using 0 by (intro exI[of _ cs]) (auto simp: fun_upd_idem)
next
  case (Suc d)
  then have lt: "i < bound" by simp
  obtain x where x: "cs ! Suc i = Some x" using Suc.prems lt by (metis Suc_leI lessI not_None_eq)
  let ?cs1 = "cs[i := Some x]"
  let ?h1 = "h\<lparr>cells := (cells h)(b \<mapsto> ?cs1)\<rparr>"
  have step: "copy_elem (ptr_add (Ptr b 0) (int i)) (ptr_add (Ptr b 0) (int (i + 1))) h = Some ?h1"
    using copy_elem_block[OF Suc.prems(1), of i "Suc i" x] Suc.prems lt x by simp
  have "\<exists>cs'. shiftLeft_loop (Suc i) bound (Ptr b 0) ?h1 = Some (?h1\<lparr>cells := (cells ?h1)(b \<mapsto> cs')\<rparr>)
            \<and> length cs' = length ?cs1
            \<and> (\<forall>k<length ?cs1. cs' ! k = (if Suc i \<le> k \<and> k < bound then ?cs1 ! Suc k else ?cs1 ! k))"
    apply (rule Suc.hyps(1))
    using Suc.hyps(2) Suc.prems lt by auto
  then obtain cs' where cs': "shiftLeft_loop (Suc i) bound (Ptr b 0) ?h1 = Some (?h1\<lparr>cells := (cells ?h1)(b \<mapsto> cs')\<rparr>)"
     "length cs' = length cs" "\<forall>k<length cs. cs' ! k = (if Suc i \<le> k \<and> k < bound then ?cs1 ! Suc k else ?cs1 ! k)"
    by auto
  have "shiftLeft_loop i bound (Ptr b 0) h = Some (h\<lparr>cells := (cells h)(b \<mapsto> cs')\<rparr>)"
    using lt step cs'(1) by (subst shiftLeft_loop.simps) simp
  moreover have "cs' ! k = (if i \<le> k \<and> k < bound then cs ! Suc k else cs ! k)" if k: "k < length cs" for k
  proof -
    have ck: "cs' ! k = (if Suc i \<le> k \<and> k < bound then ?cs1 ! Suc k else ?cs1 ! k)"
      using cs'(3) k by blast
    consider "k < i" | "k = i" | "i < k" by linarith
    then show ?thesis
    proof cases
      case 1 then show ?thesis using ck by simp
    next
      case 2 then show ?thesis using ck x lt k by simp
    next
      case 3 then show ?thesis using ck by simp
    qed
  qed
  ultimately show ?case using cs'(2) by blast
qed


lemma shiftRight_loop_spec:
  assumes "cells h b = Some cs" "i < length cs" "beginIndex \<le> i"
    and "\<forall>k. beginIndex \<le> k \<and> k < i \<longrightarrow> cs ! k \<noteq> None"
  shows "\<exists>cs'. shiftRight_loop i beginIndex (Ptr b 0) h = Some (h\<lparr>cells := (cells h)(b \<mapsto> cs')\<rparr>)
            \<and> length cs' = length cs
            \<and> (\<forall>k<length cs. cs' ! k = (if beginIndex < k \<and> k \<le> i then cs ! (k - 1) else cs ! k))"
  using assms
proof (induction "i - beginIndex" arbitrary: i h cs)
  case 0
  then have "i = beginIndex" by simp
  then show ?case using 0 by (intro exI[of _ cs]) (auto simp: fun_upd_idem)
next
  case (Suc d)
  then have lt: "beginIndex < i" by simp
  then obtain j where j: "i = Suc j" by (cases i) auto
  obtain x where x: "cs ! j = Some x" using Suc.prems lt j by (metis lessI less_Suc_eq_le not_None_eq)
  let ?cs1 = "cs[i := Some x]"
  let ?h1 = "h\<lparr>cells := (cells h)(b \<mapsto> ?cs1)\<rparr>"
  have step: "copy_elem (ptr_add (Ptr b 0) (int i)) (ptr_add (Ptr b 0) (int (i - 1))) h = Some ?h1"
    using copy_elem_block[OF Suc.prems(1), of i j x] Suc.prems lt x j by simp
  have "\<exists>cs'. shiftRight_loop j beginIndex (Ptr b 0) ?h1 = Some (?h1\<lparr>cells := (cells ?h1)(b \<mapsto> cs')\<rparr>)
            \<and> length cs' = length ?cs1
            \<and> (\<forall>k<length ?cs1. cs' ! k = (if beginIndex < k \<and> k \<le> j then ?cs1 ! (k - 1) else ?cs1 ! k))"
    apply (rule Suc.hyps(1))
    using Suc.hyps(2) Suc.prems lt j by auto
  then obtain cs' where cs': "shiftRight_loop j beginIndex (Ptr b 0) ?h1 = Some (?h1\<lparr>cells := (cells ?h1)(b \<mapsto> cs')\<rparr>)"
     "length cs' = length cs" "\<forall>k<length cs. cs' ! k = (if beginIndex < k \<and> k \<le> j then ?cs1 ! (k - 1) else ?cs1 ! k)"
    by auto
  have "shiftRight_loop i beginIndex (Ptr b 0) h = Some (h\<lparr>cells := (cells h)(b \<mapsto> cs')\<rparr>)"
    using lt step cs'(1) j by (subst shiftRight_loop.simps) simp
  moreover have "cs' ! k = (if beginIndex < k \<and> k \<le> i then cs ! (k - 1) else cs ! k)" if k: "k < length cs" for k
  proof -
    have ck: "cs' ! k = (if beginIndex < k \<and> k \<le> j then ?cs1 ! (k - 1) else ?cs1 ! k)"
      using cs'(3) k by blast
    consider "k < i" | "k = i" | "i < k" by linarith
    then show ?thesis
    proof cases
      case 1 then show ?thesis using ck j by auto
    next
      case 2 then show ?thesis using ck x lt k j by simp
    next
      case 3 then show ?thesis using ck j by simp
    qed
  qed
  ultimately show ?case using cs'(2) by blast
qed

lemma copy_elem_blocks:
  "cells h b = Some cs \<Longrightarrow> cells h c = Some ds \<Longrightarrow> i < length ds \<Longrightarrow> j < length cs \<Longrightarrow> cs ! j = Some x \<Longrightarrow>
   copy_elem (Ptr c (int i)) (Ptr b (int j)) h = Some (h\<lparr>cells := (cells h)(c \<mapsto> ds[i := Some x])\<rparr>)"
  by (simp add: copy_elem_def load_block store_block)

lemma reallocate_loop_spec:
  assumes "cells h b = Some cs" "cells h c = Some ds" "b \<noteq> c" "n \<le> length cs" "n \<le> length ds" "i \<le> n"
    and "\<forall>k. i \<le> k \<and> k < n \<longrightarrow> cs ! k \<noteq> None"
  shows "\<exists>ds'. reallocate_loop i n (Ptr c 0) (Ptr b 0) h = Some (h\<lparr>cells := (cells h)(c \<mapsto> ds')\<rparr>)
            \<and> length ds' = length ds
            \<and> (\<forall>k<length ds. ds' ! k = (if i \<le> k \<and> k < n then cs ! k else ds ! k))"
  using assms
proof (induction "n - i" arbitrary: i h ds)
  case 0
  then have "i = n" by simp
  then show ?case using 0 by (intro exI[of _ ds]) (auto simp: fun_upd_idem)
next
  case (Suc d)
  then have lt: "i < n" by simp
  obtain x where x: "cs ! i = Some x" using Suc.prems lt by (metis order_refl not_None_eq)
  let ?ds1 = "ds[i := Some x]"
  let ?h1 = "h\<lparr>cells := (cells h)(c \<mapsto> ?ds1)\<rparr>"
  have step: "copy_elem (ptr_add (Ptr c 0) (int i)) (ptr_add (Ptr b 0) (int i)) h = Some ?h1"
    using copy_elem_blocks[OF Suc.prems(1) Suc.prems(2), of i i x] Suc.prems lt x by simp
  have "\<exists>ds'. reallocate_loop (Suc i) n (Ptr c 0) (Ptr b 0) ?h1 = Some (?h1\<lparr>cells := (cells ?h1)(c \<mapsto> ds')\<rparr>)
            \<and> length ds' = length ?ds1
            \<and> (\<forall>k<length ?ds1. ds' ! k = (if Suc i \<le> k \<and> k < n then cs ! k else ?ds1 ! k))"
    apply (rule Suc.hyps(1))
    using Suc.hyps(2) Suc.prems lt by auto
  then obtain ds' where ds': "reallocate_loop (Suc i) n (Ptr c 0) (Ptr b 0) ?h1 = Some (?h1\<lparr>cells := (cells ?h1)(c \<mapsto> ds')\<rparr>)"
     "length ds' = length ds" "\<forall>k<length ds. ds' ! k = (if Suc i \<le> k \<and> k < n then cs ! k else ?ds1 ! k)"
    by auto
  have "reallocate_loop i n (Ptr c 0) (Ptr b 0) h = Some (h\<lparr>cells := (cells h)(c \<mapsto> ds')\<rparr>)"
    using lt step ds'(1) by (subst reallocate_loop.simps) simp
  moreover have "ds' ! k = (if i \<le> k \<and> k < n then cs ! k else ds ! k)" if k: "k < length ds" for k
  proof -
    have ck: "ds' ! k = (if Suc i \<le> k \<and> k < n then cs ! k else ?ds1 ! k)"
      using ds'(3) k by blast
    consider "k < i" | "k = i" | "i < k" by linarith
    then show ?thesis
    proof cases
      case 1 then show ?thesis using ck by simp
    next
      case 2 then show ?thesis using ck x lt k by simp
    next
      case 3 then show ?thesis using ck by simp
    qed
  qed
  ultimately show ?case using ds'(2) by blast
qed



lemma Vector_repE:
  assumes "Vector_rep h v xs"
  obtains b cs where "elements v = Ptr b 0" "b < brk h" "cells h b = Some cs"
    "length cs = capacity v" "size_v v = length xs" "length xs \<le> capacity v"
    "take (length xs) cs = map Some xs" "iteratorType (pastTheEnd v) = END"
  using assms by (auto simp: Vector_rep_def split: ptr.splits option.splits)

lemma Vector_repI:
  assumes "elements v = Ptr b 0" "b < brk h" "cells h b = Some cs"
    "length cs = capacity v" "size_v v = length xs" "length xs \<le> capacity v"
    "take (length xs) cs = map Some xs" "iteratorType (pastTheEnd v) = END"
  shows "Vector_rep h v xs"
  using assms by (simp add: Vector_rep_def)

lemma take_map_Some_nth:
  "take (length xs) cs = map Some xs \<Longrightarrow> k < length xs \<Longrightarrow> cs ! k = Some (xs ! k)"
  by (metis length_map nth_map nth_take)

lemma take_eq_map_SomeI:
  assumes "length ys \<le> length cs" "\<And>k. k < length ys \<Longrightarrow> cs ! k = Some (ys ! k)"
  shows "take (length ys) cs = map Some ys"
  using assms by (intro nth_equalityI) auto

lemma reallocateMemoryIfNeeded_rep:
  assumes rep: "Vector_rep h v xs" and pos: "0 < capacity v"
  shows "\<exists>v1 h1. reallocateMemoryIfNeeded v h = Some (v1, h1) \<and> Vector_rep h1 v1 xs
           \<and> length xs < capacity v1
           \<and> capacity v1 = (if length xs = capacity v then capacity v * 2 else capacity v)
           \<and> pastTheEnd v1 = pastTheEnd v
           \<and> buffer_frame (elements v) h h1 \<and> brk h \<le> brk h1
           \<and> (elements v1 = elements v \<or> (\<exists>c. elements v1 = Ptr c 0 \<and> brk h \<le> c))"
proof -
  from rep obtain b cs where v: "elements v = Ptr b 0" "b < brk h" "cells h b = Some cs"
    "length cs = capacity v" "size_v v = length xs" "length xs \<le> capacity v"
    "take (length xs) cs = map Some xs" "iteratorType (pastTheEnd v) = END" by (rule Vector_repE)
  show ?thesis
  proof (cases "length xs = capacity v")
    case False
    then show ?thesis using rep v by (simp add: reallocateMemoryIfNeeded_def buffer_frame_def)
  next
    case True
    let ?c = "brk h"
    let ?ds = "replicate (capacity v * 2) (None :: 'a option)"
    let ?h1 = "h\<lparr>cells := (cells h)(?c \<mapsto> ?ds), brk := Suc ?c\<rparr>"
    have bc: "b \<noteq> ?c" using v(2) by simp
    have init: "\<forall>k. 0 \<le> k \<and> k < length xs \<longrightarrow> cs ! k \<noteq> None"
      using take_map_Some_nth[OF v(7)] by simp
    have "\<exists>ds'. reallocate_loop 0 (length xs) (Ptr ?c 0) (Ptr b 0) ?h1 = Some (?h1\<lparr>cells := (cells ?h1)(?c \<mapsto> ds')\<rparr>)
            \<and> length ds' = length ?ds
            \<and> (\<forall>k<length ?ds. ds' ! k = (if 0 \<le> k \<and> k < length xs then cs ! k else ?ds ! k))"
      apply (rule reallocate_loop_spec[where cs = cs])
      using v bc init True by auto
    then obtain ds' where ds': "reallocate_loop 0 (length xs) (Ptr ?c 0) (Ptr b 0) ?h1 = Some (?h1\<lparr>cells := (cells ?h1)(?c \<mapsto> ds')\<rparr>)"
      "length ds' = capacity v * 2" "\<forall>k<capacity v * 2. ds' ! k = (if k < length xs then cs ! k else None)"
      by auto
    let ?h2 = "?h1\<lparr>cells := (cells ?h1)(?c \<mapsto> ds')\<rparr>"
    let ?h3 = "?h2\<lparr>cells := (cells ?h2)(b := None)\<rparr>"
    let ?v1 = "v\<lparr>capacity := capacity v * 2, elements := Ptr ?c 0\<rparr>"
    have del: "delete_array (Ptr b 0) ?h2 = Some ?h3"
      using v bc by (simp add: delete_array_def free_def)
    have run: "reallocateMemoryIfNeeded v h = Some (?v1, ?h3)"
      using True v ds'(1) del
      by (simp add: reallocateMemoryIfNeeded_def reallocateMemory_def reallocateMemory_to_def new_array_def alloc_def Let_def)
    have tk: "take (length xs) ds' = map Some xs"
    proof (rule nth_equalityI)
      show "length (take (length xs) ds') = length (map Some xs)" using ds'(2) True by simp
    next
      fix k assume "k < length (take (length xs) ds')"
      then have k: "k < length xs" by simp
      then have "ds' ! k = cs ! k" using ds'(3) True pos by simp
      then show "take (length xs) ds' ! k = map Some xs ! k"
        using k take_map_Some_nth[OF v(7) k] by simp
    qed
    have "Vector_rep ?h3 ?v1 xs"
      apply (rule Vector_repI[where b = ?c and cs = ds'])
      using bc ds'(2) v True tk by auto
    moreover have "buffer_frame (elements v) h ?h3" using v by (simp add: buffer_frame_def block_of_def)
    ultimately show ?thesis using run True pos by auto
  qed
qed


lemma shiftRight_store_rep:
  assumes rep: "Vector_rep h v xs" and room: "length xs < capacity v" and idx: "idx \<le> length xs"
  shows "\<exists>h2. shiftElementsToRightFrom idx v h = Some h2 \<and> buffer_frame (elements v) h h2
           \<and> brk h2 = brk h
           \<and> (\<forall>x. \<exists>h3. store (ptr_add (elements v) (int idx)) x h2 = Some h3
                  \<and> Vector_rep h3 (v\<lparr>size_v := size_v v + 1\<rparr>) (take idx xs @ x # drop idx xs)
                  \<and> buffer_frame (elements v) h h3 \<and> brk h3 = brk h)"
proof -
  from rep obtain b cs where v: "elements v = Ptr b 0" "b < brk h" "cells h b = Some cs"
    "length cs = capacity v" "size_v v = length xs" "length xs \<le> capacity v"
    "take (length xs) cs = map Some xs" "iteratorType (pastTheEnd v) = END" by (rule Vector_repE)
  have init: "\<forall>k. idx \<le> k \<and> k < length xs \<longrightarrow> cs ! k \<noteq> None"
    using take_map_Some_nth[OF v(7)] by simp
  have "\<exists>cs'. shiftRight_loop (length xs) idx (Ptr b 0) h = Some (h\<lparr>cells := (cells h)(b \<mapsto> cs')\<rparr>)
            \<and> length cs' = length cs
            \<and> (\<forall>k<length cs. cs' ! k = (if idx < k \<and> k \<le> length xs then cs ! (k - 1) else cs ! k))"
    by (rule shiftRight_loop_spec) (use v room idx init in auto)
  then obtain cs' where cs': "shiftRight_loop (length xs) idx (Ptr b 0) h = Some (h\<lparr>cells := (cells h)(b \<mapsto> cs')\<rparr>)"
    "length cs' = length cs"
    "\<forall>k<length cs. cs' ! k = (if idx < k \<and> k \<le> length xs then cs ! (k - 1) else cs ! k)"
    by auto
  let ?h2 = "h\<lparr>cells := (cells h)(b \<mapsto> cs')\<rparr>"
  have sh: "shiftElementsToRightFrom idx v h = Some ?h2"
    using cs'(1) v by (simp add: shiftElementsToRightFrom_def)
  have f2: "buffer_frame (elements v) h ?h2" "brk ?h2 = brk h"
    using v by (simp_all add: buffer_frame_def block_of_def)
  have "\<exists>h3. store (ptr_add (elements v) (int idx)) x ?h2 = Some h3
                  \<and> Vector_rep h3 (v\<lparr>size_v := size_v v + 1\<rparr>) (take idx xs @ x # drop idx xs)
                  \<and> buffer_frame (elements v) h h3 \<and> brk h3 = brk h" for x
  proof -
  let ?cs2 = "cs'[idx := Some x]"
  let ?h3 = "h\<lparr>cells := (cells h)(b \<mapsto> ?cs2)\<rparr>"
  have st: "store (ptr_add (elements v) (int idx)) x ?h2 = Some ?h3"
    using store_block[of ?h2 b cs' idx x] v cs'(2) room idx by simp
  have tk: "take (length (take idx xs @ x # drop idx xs)) ?cs2 = map Some (take idx xs @ x # drop idx xs)"
  proof (rule take_eq_map_SomeI)
    show "length (take idx xs @ x # drop idx xs) \<le> length ?cs2"
      using cs'(2) v room idx by simp
  next
    fix k assume "k < length (take idx xs @ x # drop idx xs)"
    then have k: "k < Suc (length xs)" using idx by simp
    then have kc: "k < length cs" using room v by simp
    consider "k < idx" | "k = idx" | "idx < k" by linarith
    then show "?cs2 ! k = Some ((take idx xs @ x # drop idx xs) ! k)"
    proof cases
      case 1
      then have "?cs2 ! k = cs ! k" using cs'(3) kc by simp
      also have "\<dots> = Some (xs ! k)" using take_map_Some_nth[OF v(7)] 1 idx by simp
      finally show ?thesis using 1 idx by (simp add: nth_append)
    next
      case 2
      then show ?thesis using kc cs'(2) idx by (simp add: nth_append)
    next
      case 3
      then obtain j where j: "k = Suc j" by (cases k) auto
      have "?cs2 ! k = cs ! j" using cs'(3) kc 3 k j by simp
      also have "\<dots> = Some (xs ! j)" using take_map_Some_nth[OF v(7), of j] k j by simp
      finally show ?thesis using 3 idx j k by (simp add: nth_append nth_Cons' min_def)
    qed
  qed
  have "Vector_rep ?h3 (v\<lparr>size_v := size_v v + 1\<rparr>) (take idx xs @ x # drop idx xs)"
    by (rule Vector_repI[where b = b and cs = ?cs2]) (use v cs'(2) room idx tk in auto)
  moreover have "buffer_frame (elements v) h ?h3" "brk ?h3 = brk h"
    using v by (simp_all add: buffer_frame_def block_of_def)
  ultimately show ?thesis using st by blast
  qed
  then show ?thesis using sh f2 by blast
qed

lemma shiftLeft_rep:
  assumes rep: "Vector_rep h v xs" and idx: "idx < length xs"
  shows "\<exists>h1. shiftElementsToLeftUpTo idx v h = Some h1
           \<and> Vector_rep h1 (v\<lparr>size_v := size_sub (size_v v) 1\<rparr>) (take idx xs @ drop (Suc idx) xs)
           \<and> buffer_frame (elements v) h h1 \<and> brk h1 = brk h"
proof -
  from rep obtain b cs where v: "elements v = Ptr b 0" "b < brk h" "cells h b = Some cs"
    "length cs = capacity v" "size_v v = length xs" "length xs \<le> capacity v"
    "take (length xs) cs = map Some xs" "iteratorType (pastTheEnd v) = END" by (rule Vector_repE)
  let ?n = "length xs"
  have init: "\<forall>k. idx < k \<and> k \<le> ?n - 1 \<longrightarrow> cs ! k \<noteq> None"
    using take_map_Some_nth[OF v(7)] idx by auto
  have "\<exists>cs'. shiftLeft_loop idx (?n - 1) (Ptr b 0) h = Some (h\<lparr>cells := (cells h)(b \<mapsto> cs')\<rparr>)
            \<and> length cs' = length cs
            \<and> (\<forall>k<length cs. cs' ! k = (if idx \<le> k \<and> k < ?n - 1 then cs ! Suc k else cs ! k))"
    by (rule shiftLeft_loop_spec) (use v idx init in auto)
  then obtain cs' where cs': "shiftLeft_loop idx (?n - 1) (Ptr b 0) h = Some (h\<lparr>cells := (cells h)(b \<mapsto> cs')\<rparr>)"
    "length cs' = length cs"
    "\<forall>k<length cs. cs' ! k = (if idx \<le> k \<and> k < ?n - 1 then cs ! Suc k else cs ! k)"
    by auto
  let ?h1 = "h\<lparr>cells := (cells h)(b \<mapsto> cs')\<rparr>"
  let ?ys = "take idx xs @ drop (Suc idx) xs"
  have len: "length ?ys = ?n - 1" using idx by simp
  have sh: "shiftElementsToLeftUpTo idx v h = Some ?h1"
    using cs'(1) v idx by (simp add: shiftElementsToLeftUpTo_def)
  have tk: "take (length ?ys) cs' = map Some ?ys"
  proof (rule take_eq_map_SomeI)
    show "length ?ys \<le> length cs'"
      using cs'(2) v idx by simp
  next
    fix k assume "k < length ?ys"
    then have k: "k < ?n - 1" using len by simp
    then have kc: "k < length cs" using v by simp
    show "cs' ! k = Some (?ys ! k)"
    proof (cases "k < idx")
      case True
      then have "cs' ! k = cs ! k" using cs'(3) kc by simp
      also have "\<dots> = Some (xs ! k)" using take_map_Some_nth[OF v(7)] True idx by simp
      finally show ?thesis using True idx by (simp add: nth_append)
    next
      case False
      then have "cs' ! k = cs ! Suc k" using cs'(3) kc k by simp
      also have "\<dots> = Some (xs ! Suc k)" using take_map_Some_nth[OF v(7), of "Suc k"] k by simp
      finally show ?thesis using False idx k by (simp add: nth_append min_def)
    qed
  qed
  have "Vector_rep ?h1 (v\<lparr>size_v := size_sub (size_v v) 1\<rparr>) ?ys"
    by (rule Vector_repI[where b = b and cs = cs']) (use v cs'(2) idx tk len in auto)
  moreover have "buffer_frame (elements v) h ?h1" "brk ?h1 = brk h"
    using v by (simp_all add: buffer_frame_def block_of_def)
  ultimately show ?thesis using sh by blast
qed



subsection \<open>The operations on a well-formed array\<close>

lemma read_reference_Temporary [simp]: "read_reference (Temporary x) h = Some x"
  by (simp add: read_reference_def)

lemma buffer_frame_refl [simp]: "buffer_frame p h h"
  by (simp add: buffer_frame_def)

lemma buffer_frame_step:
  assumes "buffer_frame p h h1" "buffer_frame q h1 h2"
    and "q = p \<or> (\<exists>c. q = Ptr c 0 \<and> brk h \<le> c)"
  shows "buffer_frame p h h2"
  using assms by (auto simp: buffer_frame_def block_of_def)

text \<open>
  \<^verbatim>\<open>append\<close>, \<^verbatim>\<open>prepend\<close> and \<^verbatim>\<open>insert\<close> for any item: the reallocation and the shift
  succeed, and the call returns exactly when the item can then be read.
\<close>

lemma Vector_insert_tail:
  assumes rep: "Vector_rep h v xs" and pos: "0 < capacity v" and i: "i \<le> length xs"
  shows "\<exists>v1 h1 h2. reallocateMemoryIfNeeded v h = Some (v1, h1)
           \<and> shiftElementsToRightFrom i v1 h1 = Some h2 \<and> buffer_frame (elements v) h h2
           \<and> size_v v1 = length xs
           \<and> (\<forall>x. \<exists>h3. store (ptr_add (elements v1) (int i)) x h2 = Some h3
                  \<and> Vector_rep h3 (v1\<lparr>size_v := size_v v1 + 1\<rparr>) (take i xs @ x # drop i xs)
                  \<and> capacity v1 = (if length xs = capacity v then capacity v * 2 else capacity v)
                  \<and> pastTheEnd v1 = pastTheEnd v
                  \<and> buffer_frame (elements v) h h3)"
proof -
  obtain v1 h1 where r: "reallocateMemoryIfNeeded v h = Some (v1, h1)" "Vector_rep h1 v1 xs"
    "length xs < capacity v1"
    "capacity v1 = (if length xs = capacity v then capacity v * 2 else capacity v)"
    "pastTheEnd v1 = pastTheEnd v" "buffer_frame (elements v) h h1"
    "elements v1 = elements v \<or> (\<exists>c. elements v1 = Ptr c 0 \<and> brk h \<le> c)"
    using reallocateMemoryIfNeeded_rep[OF rep pos] by blast
  obtain h2 where s: "shiftElementsToRightFrom i v1 h1 = Some h2" "buffer_frame (elements v1) h1 h2"
    "\<forall>x. \<exists>h3. store (ptr_add (elements v1) (int i)) x h2 = Some h3
                  \<and> Vector_rep h3 (v1\<lparr>size_v := size_v v1 + 1\<rparr>) (take i xs @ x # drop i xs)
                  \<and> buffer_frame (elements v1) h1 h3 \<and> brk h3 = brk h1"
    using shiftRight_store_rep[OF r(2) r(3) i] by blast
  have sz: "size_v v1 = length xs" using r(2) by (rule Vector_repE)
  have f2: "buffer_frame (elements v) h h2" using buffer_frame_step[OF r(6) s(2) r(7)] .
  have "\<exists>h3. store (ptr_add (elements v1) (int i)) x h2 = Some h3
                  \<and> Vector_rep h3 (v1\<lparr>size_v := size_v v1 + 1\<rparr>) (take i xs @ x # drop i xs)
                  \<and> capacity v1 = (if length xs = capacity v then capacity v * 2 else capacity v)
                  \<and> pastTheEnd v1 = pastTheEnd v
                  \<and> buffer_frame (elements v) h h3" for x
  proof -
    obtain h3 where t: "store (ptr_add (elements v1) (int i)) x h2 = Some h3"
      "Vector_rep h3 (v1\<lparr>size_v := size_v v1 + 1\<rparr>) (take i xs @ x # drop i xs)"
      "buffer_frame (elements v1) h1 h3" using s(3) by blast
    have "buffer_frame (elements v) h h3" using buffer_frame_step[OF r(6) t(3) r(7)] .
    then show ?thesis using t r(4,5) by blast
  qed
  then show ?thesis using r(1) s(1) f2 sz
    by (intro exI[of _ v1] exI[of _ h1] exI[of _ h2]) simp
qed

lemma Vector_append_gen:
  assumes rep: "Vector_rep h v xs" and pos: "0 < capacity v"
  shows "\<exists>v1 h1. reallocateMemoryIfNeeded v h = Some (v1, h1) \<and> buffer_frame (elements v) h h1
           \<and> (read_reference item h1 = None \<longrightarrow> Vector_append item v h = Undefined)
           \<and> (\<forall>x. read_reference item h1 = Some x \<longrightarrow>
                (\<exists>v' h'. Vector_append item v h = Returns () (v', h') \<and> Vector_rep h' v' (xs @ [x])
                   \<and> capacity v' = (if length xs = capacity v then capacity v * 2 else capacity v)
                   \<and> pastTheEnd v' = pastTheEnd v \<and> buffer_frame (elements v) h h'))"
proof -
  obtain v1 h1 h2 where r: "reallocateMemoryIfNeeded v h = Some (v1, h1)"
    "shiftElementsToRightFrom (length xs) v1 h1 = Some h2" "buffer_frame (elements v) h h2"
    "size_v v1 = length xs"
    "\<forall>x. \<exists>h3. store (ptr_add (elements v1) (int (length xs))) x h2 = Some h3
                  \<and> Vector_rep h3 (v1\<lparr>size_v := size_v v1 + 1\<rparr>) (take (length xs) xs @ x # drop (length xs) xs)
                  \<and> capacity v1 = (if length xs = capacity v then capacity v * 2 else capacity v)
                  \<and> pastTheEnd v1 = pastTheEnd v
                  \<and> buffer_frame (elements v) h h3"
    using Vector_insert_tail[OF rep pos, of "length xs"] by auto
  have h2: "h2 = h1" using r(2) r(4) by (simp add: shiftElementsToRightFrom_def)
  have u: "read_reference item h1 = None \<longrightarrow> Vector_append item v h = Undefined"
    using r(1) by (simp add: Vector_append_def)
  have "\<exists>v' h'. Vector_append item v h = Returns () (v', h') \<and> Vector_rep h' v' (xs @ [x])
                   \<and> capacity v' = (if length xs = capacity v then capacity v * 2 else capacity v)
                   \<and> pastTheEnd v' = pastTheEnd v \<and> buffer_frame (elements v) h h'"
    if rd: "read_reference item h1 = Some x" for x
  proof -
    obtain h3 where t: "store (ptr_add (elements v1) (int (length xs))) x h2 = Some h3"
      "Vector_rep h3 (v1\<lparr>size_v := size_v v1 + 1\<rparr>) (take (length xs) xs @ x # drop (length xs) xs)"
      "capacity v1 = (if length xs = capacity v then capacity v * 2 else capacity v)"
      "pastTheEnd v1 = pastTheEnd v" "buffer_frame (elements v) h h3"
      using r(5) by blast
    have "Vector_append item v h = Returns () (v1\<lparr>size_v := size_v v1 + 1\<rparr>, h3)"
      using r(1) r(4) rd t(1) h2 by (simp add: Vector_append_def)
    then show ?thesis using t by auto
  qed
  then have "\<forall>x. read_reference item h1 = Some x \<longrightarrow>
                (\<exists>v' h'. Vector_append item v h = Returns () (v', h') \<and> Vector_rep h' v' (xs @ [x])
                   \<and> capacity v' = (if length xs = capacity v then capacity v * 2 else capacity v)
                   \<and> pastTheEnd v' = pastTheEnd v \<and> buffer_frame (elements v) h h')"
    by (intro allI impI)
  moreover have "buffer_frame (elements v) h h1" using r(3) h2 by simp
  ultimately show ?thesis using r(1) u by (intro exI[of _ v1] exI[of _ h1]) simp
qed

lemma Vector_append_rep:
  assumes rep: "Vector_rep h v xs" and pos: "0 < capacity v"
  shows "\<exists>v' h'. Vector_append (Temporary x) v h = Returns () (v', h') \<and> Vector_rep h' v' (xs @ [x])
           \<and> capacity v' = (if length xs = capacity v then capacity v * 2 else capacity v)
           \<and> buffer_frame (elements v) h h'"
  using Vector_append_gen[OF rep pos, of "Temporary x"] by auto

lemma Vector_insert_gen:
  assumes rep: "Vector_rep h v xs" and pos: "0 < capacity v"
    and col: "Vector_at vs (collection_v insertPosition) = Some v"
    and cur: "Vector_cursor_at v insertPosition i" and i: "i \<le> length xs"
  shows "\<exists>h2. buffer_frame (elements v) h h2
           \<and> (read_reference item h2 = None \<longrightarrow> Vector_insert vs insertPosition item v h = Undefined)
           \<and> (\<forall>x. read_reference item h2 = Some x \<longrightarrow>
                (\<exists>v' h'. Vector_insert vs insertPosition item v h = Returns () (v', h')
                   \<and> Vector_rep h' v' (take i xs @ x # drop i xs)
                   \<and> capacity v' = (if length xs = capacity v then capacity v * 2 else capacity v)
                   \<and> pastTheEnd v' = pastTheEnd v \<and> buffer_frame (elements v) h h'))"
proof -
  have idx: "calculateIndex vs insertPosition = Some i"
    using cur col rep by (auto simp: calculateIndex_def Vector_cursor_at_def elim!: Vector_repE)
  obtain v1 h1 h2 where r: "reallocateMemoryIfNeeded v h = Some (v1, h1)"
    "shiftElementsToRightFrom i v1 h1 = Some h2" "buffer_frame (elements v) h h2"
    "size_v v1 = length xs"
    "\<forall>x. \<exists>h3. store (ptr_add (elements v1) (int i)) x h2 = Some h3
                  \<and> Vector_rep h3 (v1\<lparr>size_v := size_v v1 + 1\<rparr>) (take i xs @ x # drop i xs)
                  \<and> capacity v1 = (if length xs = capacity v then capacity v * 2 else capacity v)
                  \<and> pastTheEnd v1 = pastTheEnd v
                  \<and> buffer_frame (elements v) h h3"
    using Vector_insert_tail[OF rep pos i] by auto
  have u: "read_reference item h2 = None \<longrightarrow> Vector_insert vs insertPosition item v h = Undefined"
    using idx r(1,2) by (simp add: Vector_insert_def)
  have "\<exists>v' h'. Vector_insert vs insertPosition item v h = Returns () (v', h')
                   \<and> Vector_rep h' v' (take i xs @ x # drop i xs)
                   \<and> capacity v' = (if length xs = capacity v then capacity v * 2 else capacity v)
                   \<and> pastTheEnd v' = pastTheEnd v \<and> buffer_frame (elements v) h h'"
    if rd: "read_reference item h2 = Some x" for x
  proof -
    obtain h3 where t: "store (ptr_add (elements v1) (int i)) x h2 = Some h3"
      "Vector_rep h3 (v1\<lparr>size_v := size_v v1 + 1\<rparr>) (take i xs @ x # drop i xs)"
      "capacity v1 = (if length xs = capacity v then capacity v * 2 else capacity v)"
      "pastTheEnd v1 = pastTheEnd v" "buffer_frame (elements v) h h3"
      using r(5) by blast
    have "Vector_insert vs insertPosition item v h = Returns () (v1\<lparr>size_v := size_v v1 + 1\<rparr>, h3)"
      using idx r(1,2) rd t(1) by (simp add: Vector_insert_def)
    then show ?thesis using t by auto
  qed
  then have "\<forall>x. read_reference item h2 = Some x \<longrightarrow>
                (\<exists>v' h'. Vector_insert vs insertPosition item v h = Returns () (v', h')
                   \<and> Vector_rep h' v' (take i xs @ x # drop i xs)
                   \<and> capacity v' = (if length xs = capacity v then capacity v * 2 else capacity v)
                   \<and> pastTheEnd v' = pastTheEnd v \<and> buffer_frame (elements v) h h')"
    by (intro allI impI)
  then show ?thesis using r(3) u by (intro exI[of _ h2]) simp
qed

lemma Vector_insert_rep:
  assumes rep: "Vector_rep h v xs" and pos: "0 < capacity v"
    and col: "Vector_at vs (collection_v insertPosition) = Some v"
    and cur: "Vector_cursor_at v insertPosition i" and i: "i \<le> length xs"
  shows "\<exists>v' h'. Vector_insert vs insertPosition (Temporary x) v h = Returns () (v', h')
           \<and> Vector_rep h' v' (take i xs @ x # drop i xs)
           \<and> capacity v' = (if length xs = capacity v then capacity v * 2 else capacity v)
           \<and> buffer_frame (elements v) h h'"
  using Vector_insert_gen[OF rep pos col cur i, of "Temporary x"] by auto

lemma Vector_prepend_gen:
  assumes rep: "Vector_rep h v xs" and pos: "0 < capacity v"
  shows "\<exists>h2. buffer_frame (elements v) h h2
           \<and> (read_reference item h2 = None \<longrightarrow> Vector_prepend item v h = Undefined)
           \<and> (\<forall>x. read_reference item h2 = Some x \<longrightarrow>
                (\<exists>v' h'. Vector_prepend item v h = Returns () (v', h') \<and> Vector_rep h' v' (x # xs)
                   \<and> capacity v' = (if length xs = capacity v then capacity v * 2 else capacity v)
                   \<and> pastTheEnd v' = pastTheEnd v \<and> buffer_frame (elements v) h h'))"
proof -
  obtain v1 h1 h2 where r: "reallocateMemoryIfNeeded v h = Some (v1, h1)"
    "shiftElementsToRightFrom 0 v1 h1 = Some h2" "buffer_frame (elements v) h h2"
    "size_v v1 = length xs"
    "\<forall>x. \<exists>h3. store (ptr_add (elements v1) (int 0)) x h2 = Some h3
                  \<and> Vector_rep h3 (v1\<lparr>size_v := size_v v1 + 1\<rparr>) (take 0 xs @ x # drop 0 xs)
                  \<and> capacity v1 = (if length xs = capacity v then capacity v * 2 else capacity v)
                  \<and> pastTheEnd v1 = pastTheEnd v
                  \<and> buffer_frame (elements v) h h3"
    using Vector_insert_tail[OF rep pos, of 0] by auto
  have u: "read_reference item h2 = None \<longrightarrow> Vector_prepend item v h = Undefined"
    using r(1,2) by (simp add: Vector_prepend_def)
  have "\<exists>v' h'. Vector_prepend item v h = Returns () (v', h') \<and> Vector_rep h' v' (x # xs)
                   \<and> capacity v' = (if length xs = capacity v then capacity v * 2 else capacity v)
                   \<and> pastTheEnd v' = pastTheEnd v \<and> buffer_frame (elements v) h h'"
    if rd: "read_reference item h2 = Some x" for x
  proof -
    obtain h3 where t: "store (ptr_add (elements v1) (int 0)) x h2 = Some h3"
      "Vector_rep h3 (v1\<lparr>size_v := size_v v1 + 1\<rparr>) (take 0 xs @ x # drop 0 xs)"
      "capacity v1 = (if length xs = capacity v then capacity v * 2 else capacity v)"
      "pastTheEnd v1 = pastTheEnd v" "buffer_frame (elements v) h h3"
      using r(5) by blast
    have "Vector_prepend item v h = Returns () (v1\<lparr>size_v := size_v v1 + 1\<rparr>, h3)"
      using r(1,2) rd t(1) by (simp add: Vector_prepend_def)
    then show ?thesis using t by auto
  qed
  then have "\<forall>x. read_reference item h2 = Some x \<longrightarrow>
                (\<exists>v' h'. Vector_prepend item v h = Returns () (v', h') \<and> Vector_rep h' v' (x # xs)
                   \<and> capacity v' = (if length xs = capacity v then capacity v * 2 else capacity v)
                   \<and> pastTheEnd v' = pastTheEnd v \<and> buffer_frame (elements v) h h')"
    by (intro allI impI)
  then show ?thesis using r(3) u by (intro exI[of _ h2]) simp
qed

lemma Vector_prepend_rep:
  assumes rep: "Vector_rep h v xs" and pos: "0 < capacity v"
  shows "\<exists>v' h'. Vector_prepend (Temporary x) v h = Returns () (v', h') \<and> Vector_rep h' v' (x # xs)
           \<and> capacity v' = (if length xs = capacity v then capacity v * 2 else capacity v)
           \<and> buffer_frame (elements v) h h'"
  using Vector_prepend_gen[OF rep pos, of "Temporary x"] by auto

lemma Vector_popFirst_rep:
  assumes rep: "Vector_rep h v xs" and ne: "xs \<noteq> []"
  shows "\<exists>v' h'. Vector_popFirst v h = Returns (hd xs) (v', h') \<and> Vector_rep h' v' (tl xs)
           \<and> capacity v' = capacity v \<and> buffer_frame (elements v) h h'"
proof -
  from rep obtain b cs where v: "elements v = Ptr b 0" "b < brk h" "cells h b = Some cs"
    "length cs = capacity v" "size_v v = length xs" "length xs \<le> capacity v"
    "take (length xs) cs = map Some xs" "iteratorType (pastTheEnd v) = END" by (rule Vector_repE)
  have n: "0 < length xs" using ne by simp
  have l0: "load (ptr_add (elements v) 0) h = Some (hd xs)"
    using load_block[OF v(3), of 0] take_map_Some_nth[OF v(7), of 0] v ne n
    by (simp add: hd_conv_nth)
  obtain h1 where s: "shiftElementsToLeftUpTo 0 v h = Some h1"
    "Vector_rep h1 (v\<lparr>size_v := size_sub (size_v v) 1\<rparr>) (take 0 xs @ drop (Suc 0) xs)"
    "buffer_frame (elements v) h h1"
    using shiftLeft_rep[OF rep, of 0] ne by auto
  have "Vector_popFirst v h = Returns (hd xs) (v\<lparr>size_v := size_sub (size_v v) 1\<rparr>, h1)"
    using l0 s(1) v ne
    by (simp add: Vector_popFirst_def Vector_throwIfCollectionEmpty_def Vector_isEmpty_def)
  then show ?thesis using s(2,3) by (auto simp: drop_Suc)
qed

lemma Vector_popLast_rep:
  assumes rep: "Vector_rep h v xs" and ne: "xs \<noteq> []"
  shows "\<exists>v'. Vector_popLast v h = Returns (last xs) (v', h) \<and> Vector_rep h v' (butlast xs)
           \<and> capacity v' = capacity v"
proof -
  from rep obtain b cs where v: "elements v = Ptr b 0" "b < brk h" "cells h b = Some cs"
    "length cs = capacity v" "size_v v = length xs" "length xs \<le> capacity v"
    "take (length xs) cs = map Some xs" "iteratorType (pastTheEnd v) = END" by (rule Vector_repE)
  have n: "0 < length xs" using ne by simp
  obtain m where m: "length xs = Suc m" using ne by (cases xs) auto
  have ss: "size_sub (size_v v) 1 = m" using v(5) m by (simp add: size_sub_def)
  have "load (ptr_add (elements v) (int m)) h = Some (last xs)"
    using load_block[OF v(3), of m] take_map_Some_nth[OF v(7), of m] v m ne
    by (simp add: last_conv_nth)
  then have l0: "load (ptr_add (elements v) (int (size_sub (size_v v) 1))) h = Some (last xs)"
    unfolding ss .
  have tk: "take (length (butlast xs)) cs = map Some (butlast xs)"
    by (rule take_eq_map_SomeI)
       (use v take_map_Some_nth[OF v(7)] in \<open>auto simp: nth_butlast\<close>)
  have "Vector_rep h (v\<lparr>size_v := size_sub (size_v v) 1\<rparr>) (butlast xs)"
    by (rule Vector_repI[where b = b and cs = cs]) (use v tk n in auto)
  moreover have "Vector_popLast v h = Returns (last xs) (v\<lparr>size_v := size_sub (size_v v) 1\<rparr>, h)"
    using l0 v ne
    by (simp add: Vector_popLast_def Vector_throwIfCollectionEmpty_def Vector_isEmpty_def)
  ultimately show ?thesis by auto
qed

lemma Vector_erase_rep:
  assumes rep: "Vector_rep h v xs"
    and col: "Vector_at vs (collection_v position) = Some v"
    and cur: "Vector_cursor_at v position i" and i: "i < length xs" and tag: "\<not> isEnd position"
  shows "\<exists>v' h'. Vector_erase vs position v h = Returns () (v', h')
           \<and> Vector_rep h' v' (take i xs @ drop (Suc i) xs) \<and> capacity v' = capacity v
           \<and> buffer_frame (elements v) h h'"
proof -
  have idx: "calculateIndex vs position = Some i"
    using cur col rep by (auto simp: calculateIndex_def Vector_cursor_at_def elim!: Vector_repE)
  have sz: "size_v v = length xs" using rep by (rule Vector_repE)
  obtain h1 where s: "shiftElementsToLeftUpTo i v h = Some h1"
    "Vector_rep h1 (v\<lparr>size_v := size_sub (size_v v) 1\<rparr>) (take i xs @ drop (Suc i) xs)"
    "buffer_frame (elements v) h h1"
    using shiftLeft_rep[OF rep i] by auto
  have ne: "xs \<noteq> []" using i by auto
  have "Vector_erase vs position v h = Returns () (v\<lparr>size_v := size_sub (size_v v) 1\<rparr>, h1)"
    using idx s(1) sz ne tag
    by (simp add: Vector_erase_def Vector_throwIfCollectionEmpty_def Vector_isEmpty_def
        Vector_throwIfIteratorEqaulsEnd_def)
  then show ?thesis using s(2,3) by auto
qed



subsection \<open>Traversal of a well-formed array\<close>



subsection \<open>Cursors at the end, sequences of operations, failures\<close>

lemma abc_rep: "Vector_rep abc_heap abc_vector [1, 2, 3]"
  by (simp add: Vector_rep_def abc_heap_def abc_vector_def)

lemma abc_ctor_list: "Vector_ctor_list [1, 2, 3] 0 empty_heap = Returns () (abc_vector, abc_heap)"
  by (simp add: Vector_ctor_list_def Vector_ctor_def new_array_def alloc_def empty_heap_def
      Vector_append_def reallocateMemoryIfNeeded_def store_def abc_heap_def abc_vector_def)

lemma Vector_erase_at_size:
  assumes rep: "Vector_rep h v xs" and ne: "xs \<noteq> []"
    and obj: "vs this = Some v"
  shows "\<exists>v'. Vector_erase vs (Vector_plus (Vector_begin this v) (int (length xs))) v h = Returns () (v', h)
           \<and> Vector_rep h v' (butlast xs)"
proof -
  from rep obtain b cs where v: "elements v = Ptr b 0" "b < brk h" "cells h b = Some cs"
    "length cs = capacity v" "size_v v = length xs" "length xs \<le> capacity v"
    "take (length xs) cs = map Some xs" "iteratorType (pastTheEnd v) = END" by (rule Vector_repE)
  let ?p = "Vector_plus (Vector_begin this v) (int (length xs))"
  have idx: "calculateIndex vs ?p = Some (length xs)"
    using v obj by (simp add: calculateIndex_def Vector_plus_def Vector_begin_def createBegin_def Vector_at_def)
  have tk: "take (length (butlast xs)) cs = map Some (butlast xs)"
    by (rule take_eq_map_SomeI)
       (use v take_map_Some_nth[OF v(7)] in \<open>auto simp: nth_butlast\<close>)
  have "Vector_rep h (v\<lparr>size_v := size_sub (size_v v) 1\<rparr>) (butlast xs)"
    by (rule Vector_repI[where b = b and cs = cs]) (use v tk ne in auto)
  moreover have "Vector_erase vs ?p v h = Returns () (v\<lparr>size_v := size_sub (size_v v) 1\<rparr>, h)"
    using idx v ne
    by (simp add: Vector_erase_def Vector_throwIfCollectionEmpty_def Vector_isEmpty_def
        Vector_throwIfIteratorEqaulsEnd_def shiftElementsToLeftUpTo_def isEnd_def Vector_plus_def)
  ultimately show ?thesis by blast
qed

lemma Vector_end_rep:
  assumes rep: "Vector_rep h v xs"
  shows "currentElement (fst (Vector_end this v)) = ptr_add (elements v) (int (length xs))"
    and "iteratorType (fst (Vector_end this v)) = END"
  using rep
  by (auto simp: Vector_end_def preparePastTheEnd_def Let_def Vector_isEmpty_def
        createBeginAsEnd_def Vector_begin_def createBegin_def markEnd_def
        elim!: Vector_repE)

lemma Vector_rep_size_le: "Vector_rep h v xs \<Longrightarrow> size_v v \<le> capacity v \<and> size_v v = length xs"
  by (auto elim: Vector_repE)

lemma Vector_ctor_rep:
  "Vector_ctor n this h = (v, h') \<Longrightarrow> Vector_rep h' v [] \<and> capacity v = n
     \<and> elements v = Ptr (brk h) 0 \<and> brk h' = Suc (brk h)
     \<and> (\<forall>c. c \<noteq> brk h \<longrightarrow> cells h' c = cells h c)"
  by (auto simp: Vector_ctor_def new_array_def alloc_def Vector_rep_def)

lemma Vector_copyFromAndAppend_rep:
  assumes "Vector_rep h v xs" "0 < capacity v"
  shows "\<exists>v' h'. Vector_copyFromAndAppend ys v h = Returns () (v', h') \<and> Vector_rep h' v' (xs @ ys)
           \<and> capacity v \<le> capacity v'"
  using assms
proof (induction ys arbitrary: v h xs)
  case Nil
  then show ?case by simp
next
  case (Cons y ys)
  obtain v1 h1 where a: "Vector_append (Temporary y) v h = Returns () (v1, h1)" "Vector_rep h1 v1 (xs @ [y])"
    "capacity v1 = (if length xs = capacity v then capacity v * 2 else capacity v)"
    using Vector_append_rep[OF Cons.prems] by blast
  then have c: "0 < capacity v1" "capacity v \<le> capacity v1" using Cons.prems(2) by auto
  obtain v' h' where "Vector_copyFromAndAppend ys v1 h1 = Returns () (v', h')"
    "Vector_rep h' v' ((xs @ [y]) @ ys)" "capacity v1 \<le> capacity v'"
    using Cons.IH[OF a(2) c(1)] by blast
  then show ?case using a(1) c(2) by auto
qed

lemma Vector_prependAll_rep:
  assumes "Vector_rep h v xs" "0 < capacity v"
  shows "\<exists>v' h'. Vector_prependAll ys v h = Returns () (v', h') \<and> Vector_rep h' v' (rev ys @ xs)
           \<and> capacity v \<le> capacity v'"
  using assms
proof (induction ys arbitrary: v h xs)
  case Nil
  then show ?case by simp
next
  case (Cons y ys)
  obtain v1 h1 where a: "Vector_prepend (Temporary y) v h = Returns () (v1, h1)" "Vector_rep h1 v1 (y # xs)"
    "capacity v1 = (if length xs = capacity v then capacity v * 2 else capacity v)"
    using Vector_prepend_rep[OF Cons.prems] by blast
  then have c: "0 < capacity v1" "capacity v \<le> capacity v1" using Cons.prems(2) by auto
  obtain v' h' where "Vector_prependAll ys v1 h1 = Returns () (v', h')"
    "Vector_rep h' v' (rev ys @ y # xs)" "capacity v1 \<le> capacity v'"
    using Cons.IH[OF a(2) c(1)] by blast
  then show ?case using a(1) c(2) by auto
qed

lemma Vector_ctor_list_rep:
  assumes "ys \<noteq> []"
  shows "\<exists>v h'. Vector_ctor_list ys this h = Returns () (v, h') \<and> Vector_rep h' v ys"
proof -
  obtain v0 h0 where c: "Vector_ctor (length ys) this h = (v0, h0)" by (cases "Vector_ctor (length ys) this h")
  then have r: "Vector_rep h0 v0 []" "0 < capacity v0" using Vector_ctor_rep[OF c] assms by auto
  show ?thesis using Vector_copyFromAndAppend_rep[OF r, of ys] c by (auto simp: Vector_ctor_list_def)
qed

lemma Vector_popFirst_empty:
  "size_v v = 0 \<Longrightarrow> Vector_popFirst v h = Throws logic_error (v, h)"
  by (simp add: Vector_popFirst_def Vector_throwIfCollectionEmpty_def Vector_isEmpty_def)

lemma Vector_popLast_empty:
  "size_v v = 0 \<Longrightarrow> Vector_popLast v h = Throws logic_error (v, h)"
  by (simp add: Vector_popLast_def Vector_throwIfCollectionEmpty_def Vector_isEmpty_def)

lemma Vector_popFirst_Throws:
  "Vector_popFirst v h = Throws e s \<longleftrightarrow> size_v v = 0 \<and> e = logic_error \<and> s = (v, h)"
  by (auto simp: Vector_popFirst_def Vector_throwIfCollectionEmpty_def Vector_isEmpty_def
      split: option.splits)

lemma Vector_popLast_Throws:
  "Vector_popLast v h = Throws e s \<longleftrightarrow> size_v v = 0 \<and> e = logic_error \<and> s = (v, h)"
  by (auto simp: Vector_popLast_def Vector_throwIfCollectionEmpty_def Vector_isEmpty_def
      split: option.splits)






subsection \<open>Moving an array\<close>

lemma update_Vector_Some [simp]: "vs a = Some v \<Longrightarrow> update_Vector a f vs = Some (vs(a \<mapsto> f v))"
  by (simp add: update_Vector_def)


lemma Vector_moveFrom_self:
  assumes "vs this = Some a"
  shows "Vector_moveFrom this this vs = Some (vs(this \<mapsto> a\<lparr>elements := Null, size_v := 0\<rparr>))"
  using assms
  by (simp add: Vector_moveFrom_def Vector_getSize_def Vector_getCapacity_def)




lemma Vector_move_assign_self:
  assumes ra: "Vector_rep h a xs" and obj: "vs this = Some a"
  shows "\<exists>a' h'. Vector_move_assign this this vs h = Some (vs(this \<mapsto> a'), h')
           \<and> Vector_moved_from a' \<and> capacity a' = capacity a"
proof -
  from ra obtain c cs where a: "elements a = Ptr c 0" "cells h c = Some cs"
    "iteratorType (pastTheEnd a) = END" by (auto elim: Vector_repE)
  have "Vector_move_assign this this vs h
          = Some (vs(this \<mapsto> a\<lparr>elements := Null, size_v := 0\<rparr>), h\<lparr>cells := (cells h)(c := None)\<rparr>)"
    using a obj Vector_moveFrom_self[of vs this a]
    by (simp add: Vector_move_assign_def delete_array_def free_def)
  then show ?thesis using a by (auto simp: Vector_moved_from_def)
qed








section \<open>Properties of the list\<close>

subsection \<open>Chains\<close>

lemma chain_cong:
  "(\<And>a. a \<in> set (p # as) \<Longrightarrow> g' a = g a) \<Longrightarrow> chain g' p as q = chain g p as q"
  by (induction as arbitrary: p) auto

lemma chain_append:
  "chain g p (as @ b # bs) q \<longleftrightarrow> chain g p as b \<and> chain g b bs q"
  by (induction as arbitrary: p) auto

lemma chain_snoc:
  "chain g p (as @ [b]) q \<longleftrightarrow> chain g p as b \<and> g b = Some (Some q)"
  using chain_append[of g p as b "[]" q] by simp

lemma chain_first: "chain g p as q \<Longrightarrow> g p = Some (Some (hd (as @ [q])))"
  by (cases as) auto

lemma chain_allocated: "chain g p as q \<Longrightarrow> a \<in> set (p # as) \<Longrightarrow> \<exists>r. g a = Some (Some r)"
  by (induction as arbitrary: p) auto

lemma chain_nth:
  "chain g p as q \<Longrightarrow> i \<le> length as \<Longrightarrow> g ((p # as) ! i) = Some (Some ((as @ [q]) ! i))"
proof (induction as arbitrary: p i)
  case Nil
  then show ?case by simp
next
  case (Cons a as)
  then show ?case by (cases i) auto
qed

subsection \<open>Reading and writing the links\<close>

lemma get_next_link [simp]: "get_next (Some a) h = link nxt h a"
  by (simp add: get_next_def node_at_def link_def)

lemma get_prev_link [simp]: "get_prev (Some a) h = link prev h a"
  by (simp add: get_prev_def node_at_def link_def)

lemma set_next_Some:
  "cells h a = Some n \<Longrightarrow> set_next (Some a) q h = Some (h\<lparr>cells := (cells h)(a \<mapsto> n\<lparr>nxt := q\<rparr>)\<rparr>)"
  by (simp add: set_next_def)

lemma set_prev_Some:
  "cells h a = Some n \<Longrightarrow> set_prev (Some a) q h = Some (h\<lparr>cells := (cells h)(a \<mapsto> n\<lparr>prev := q\<rparr>)\<rparr>)"
  by (simp add: set_prev_def)

text \<open>The effect of the two splicing functions, seen through the links.\<close>

lemma collapseNodes_effect:
  assumes "cells h l \<noteq> None" "cells h r \<noteq> None"
  shows "\<exists>h'. collapseNodes (Some l) (Some r) h = Some h'
          \<and> link nxt h' = (link nxt h)(l := Some (Some r))
          \<and> link prev h' = (link prev h)(r := Some (Some l))
          \<and> val_at h' = val_at h \<and> brk h' = brk h
          \<and> (\<forall>a. (cells h' a = None) = (cells h a = None))"
  using assms
  by (auto simp: collapseNodes_def set_next_def set_prev_def link_def val_at_def fun_eq_iff
      split: option.splits)

lemma insertBetween_effect:
  assumes "cells h l \<noteq> None" "cells h r \<noteq> None" "cells h c \<noteq> None"
  shows "\<exists>h'. insertBetween (Some l) (Some r) (Some c) h = Some h'
          \<and> link nxt h' = (link nxt h)(l := Some (Some c), c := Some (Some r))
          \<and> link prev h' = (link prev h)(c := Some (Some l), r := Some (Some c))
          \<and> val_at h' = val_at h \<and> brk h' = brk h
          \<and> (\<forall>a. (cells h' a = None) = (cells h a = None))"
  using assms
  by (auto simp: insertBetween_def set_next_def set_prev_def link_def val_at_def fun_eq_iff
      split: option.splits)

lemma new_ValueNode_effect:
  "new_ValueNode x h = (c, h') \<Longrightarrow>
     c = brk h \<and> brk h' = Suc (brk h)
     \<and> link nxt h' = (link nxt h)(c := Some None)
     \<and> link prev h' = (link prev h)(c := Some None)
     \<and> val_at h' = (val_at h)(c := Some x)
     \<and> (\<forall>a. (cells h' a = None) = (a \<noteq> c \<and> cells h a = None))"
  by (auto simp: new_ValueNode_def alloc_def link_def val_at_def fun_eq_iff split: if_splits)

lemma delete_Node_effect:
  assumes "cells h a \<noteq> None"
  shows "\<exists>h'. delete_Node (Some a) h = Some h'
          \<and> link nxt h' = (link nxt h)(a := None)
          \<and> link prev h' = (link prev h)(a := None)
          \<and> val_at h' = (val_at h)(a := None) \<and> brk h' = brk h
          \<and> (\<forall>b. (cells h' b = None) = (b = a \<or> cells h b = None))"
  using assms
  by (auto simp: delete_Node_def free_def link_def val_at_def fun_eq_iff split: option.splits)

lemma link_allocated: "link f h a = Some r \<Longrightarrow> cells h a \<noteq> None"
  by (auto simp: link_def)


lemma chain_link_at:
  "chain g p (as @ bs) q \<Longrightarrow> g (last (p # as)) = Some (Some (hd (bs @ [q])))"
proof (induction as arbitrary: p)
  case Nil
  then show ?case using chain_first by fastforce
next
  case (Cons a as)
  then show ?case by simp
qed

lemma chain_suffix:
  "chain g p (as @ b # bs) q \<Longrightarrow> chain g b bs q"
  by (simp add: chain_append)

text \<open>A new node is spliced into a chain.\<close>

lemma chain_insert:
  assumes "chain g p (as @ bs) q"
    and "g' (last (p # as)) = Some (Some c)" "g' c = Some (Some (hd (bs @ [q])))"
    and "\<And>a. a \<in> set (butlast (p # as)) \<union> set bs \<Longrightarrow> g' a = g a"
  shows "chain g' p (as @ c # bs) q"
  using assms
proof (induction as arbitrary: p)
  case Nil
  have "chain g' c bs q"
  proof (cases bs)
    case Nil
    then show ?thesis using Nil.prems by simp
  next
    case (Cons b bs')
    have "chain g b bs' q" using Nil.prems(1) Cons by simp
    then have "chain g' b bs' q" using chain_cong[of b bs' g' g q] Nil.prems(4) Cons by auto
    then show ?thesis using Nil.prems Cons by simp
  qed
  then show ?case using Nil.prems by simp
next
  case (Cons a as)
  have "chain g' a (as @ c # bs) q"
    by (rule Cons.IH) (use Cons.prems in auto)
  moreover have "g' p = g p" using Cons.prems(4) by simp
  ultimately show ?case using Cons.prems(1) by simp
qed

text \<open>A stretch of nodes is cut out of a chain.\<close>

lemma chain_cut:
  assumes "chain g p (as @ mid @ bs) q"
    and "g' (last (p # as)) = Some (Some (hd (bs @ [q])))"
    and "\<And>a. a \<in> set (butlast (p # as)) \<union> set bs \<Longrightarrow> g' a = g a"
  shows "chain g' p (as @ bs) q"
  using assms
proof (induction as arbitrary: p)
  case Nil
  show ?case
  proof (cases bs)
    case Nil
    then show ?thesis using Nil.prems by simp
  next
    case (Cons b bs')
    have "chain g b bs' q" using Nil.prems(1) Cons chain_suffix[of g p mid b bs' q] by simp
    then have "chain g' b bs' q" using chain_cong[of b bs' g' g q] Nil.prems(3) Cons by auto
    then show ?thesis using Nil.prems Cons by simp
  qed
next
  case (Cons a as)
  have "chain g' a (as @ bs) q"
    by (rule Cons.IH) (use Cons.prems in auto)
  moreover have "g' p = g p" using Cons.prems(3) by simp
  ultimately show ?case using Cons.prems(1) by simp
qed

subsection \<open>The data model of the list\<close>

lemma LinkedList_repE:
  assumes "LinkedList_rep h l as xs"
  obtains fg lg where "firstGuard l = Some fg" "lastGuard l = Some lg"
    "distinct (fg # as @ [lg])" "\<forall>a \<in> set (fg # as @ [lg]). a < brk h"
    "chain (link nxt h) fg as lg" "chain (link prev h) lg (rev as) fg"
    "val_at h fg = None" "val_at h lg = None" "map (val_at h) as = map Some xs"
    "size_l l = length xs" "currentNode (endIterator l) = Some lg" "length as = length xs"
proof -
  from assms obtain fg lg where g: "firstGuard l = Some fg" "lastGuard l = Some lg"
    by (auto simp: LinkedList_rep_def split: option.splits)
  with assms have *: "distinct (fg # as @ [lg])" "list_all (\<lambda>a. a < brk h) (fg # as @ [lg])"
    "chain (link nxt h) fg as lg" "chain (link prev h) lg (rev as) fg"
    "val_at h fg = None" "val_at h lg = None" "map (val_at h) as = map Some xs"
    "size_l l = length xs" "currentNode (endIterator l) = Some lg"
    by (simp_all add: LinkedList_rep_def)
  have "length as = length xs" using *(7) by (metis length_map)
  moreover have "\<forall>a \<in> set (fg # as @ [lg]). a < brk h" using *(2) by (simp add: list_all_iff)
  ultimately show ?thesis using that g * by blast
qed

lemma LinkedList_repI:
  assumes "firstGuard l = Some fg" "lastGuard l = Some lg"
    "distinct (fg # as @ [lg])" "\<forall>a \<in> set (fg # as @ [lg]). a < brk h"
    "chain (link nxt h) fg as lg" "chain (link prev h) lg (rev as) fg"
    "val_at h fg = None" "val_at h lg = None" "map (val_at h) as = map Some xs"
    "size_l l = length xs" "currentNode (endIterator l) = Some lg"
  shows "LinkedList_rep h l as xs"
  using assms by (simp add: LinkedList_rep_def list_all_iff)

lemma LinkedList_rep_frame:
  assumes rep: "LinkedList_rep h l as xs"
    and "brk h \<le> brk h'"
    and same: "\<And>a. a \<in> set (the (firstGuard l) # as @ [the (lastGuard l)]) \<Longrightarrow> cells h' a = cells h a"
  shows "LinkedList_rep h' l as xs"
proof -
  from rep obtain fg lg where r: "firstGuard l = Some fg" "lastGuard l = Some lg"
    "distinct (fg # as @ [lg])" "\<forall>a \<in> set (fg # as @ [lg]). a < brk h"
    "chain (link nxt h) fg as lg" "chain (link prev h) lg (rev as) fg"
    "val_at h fg = None" "val_at h lg = None" "map (val_at h) as = map Some xs"
    "size_l l = length xs" "currentNode (endIterator l) = Some lg" "length as = length xs"
    by (rule LinkedList_repE)
  have s: "\<And>a. a \<in> set (fg # as @ [lg]) \<Longrightarrow> cells h' a = cells h a" using same r by simp
  have "chain (link nxt h') fg as lg = chain (link nxt h) fg as lg"
    by (rule chain_cong) (use s in \<open>auto simp: link_def\<close>)
  then have 1: "chain (link nxt h') fg as lg" using r(5) by simp
  have "chain (link prev h') lg (rev as) fg = chain (link prev h) lg (rev as) fg"
    by (rule chain_cong) (use s in \<open>auto simp: link_def\<close>)
  then have 2: "chain (link prev h') lg (rev as) fg" using r(6) by simp
  have 3: "map (val_at h') as = map Some xs"
    using r(9) s by (auto simp: val_at_def map_eq_conv cong: map_cong)
  show ?thesis
    by (rule LinkedList_repI[where fg = fg and lg = lg])
       (use r 1 2 3 s assms(2) in \<open>auto simp: val_at_def\<close>)
qed


lemma last_Cons_rev: "last (q # rev bs) = hd (bs @ [q])"
  by (cases bs) auto

lemma hd_rev_snoc: "hd (rev as @ [p]) = last (p # as)"
  by (cases as rule: rev_cases) auto

lemma butlast_not_last: "distinct xs \<Longrightarrow> a \<in> set (butlast xs) \<Longrightarrow> a \<noteq> last xs"
  by (cases xs rule: rev_cases) auto

lemma last_in: "last (p # as) \<in> set (p # as)"
  by (rule last_in_set) simp

lemma hd_snoc_in: "hd (bs @ [q]) \<in> set (bs @ [q])"
  by (rule hd_in_set) simp

lemma in_butlast: "a \<in> set (butlast xs) \<Longrightarrow> a \<in> set xs"
  by (rule in_set_butlastD)

text \<open>A new value node is spliced in between the nodes of position \<open>length as\<close>.\<close>

lemma splice_in:
  assumes rep: "LinkedList_rep h l (as @ bs) (xs @ ys)" and len: "length as = length xs"
    and g: "firstGuard l = Some fg" "lastGuard l = Some lg"
    and new: "new_ValueNode x h = (c, h1)"
  shows "\<exists>h2. insertBetween (Some (last (fg # as))) (Some (hd (bs @ [lg]))) (Some c) h1 = Some h2
           \<and> LinkedList_rep h2 (l\<lparr>size_l := size_l l + 1\<rparr>) (as @ c # bs) (xs @ x # ys)"
    and "link prev h1 (hd (bs @ [lg])) = Some (Some (last (fg # as)))"
    and "link nxt h1 (last (fg # as)) = Some (Some (hd (bs @ [lg])))"
proof -
  let ?L = "last (fg # as)" and ?R = "hd (bs @ [lg])"
  from rep g have r: "distinct (fg # (as @ bs) @ [lg])" "\<forall>a \<in> set (fg # (as @ bs) @ [lg]). a < brk h"
    "chain (link nxt h) fg (as @ bs) lg" "chain (link prev h) lg (rev (as @ bs)) fg"
    "val_at h fg = None" "val_at h lg = None" "map (val_at h) (as @ bs) = map Some (xs @ ys)"
    "size_l l = length (xs @ ys)" "currentNode (endIterator l) = Some lg"
    by (auto elim!: LinkedList_repE)
  from new have n: "c = brk h" "brk h1 = Suc (brk h)"
    "link nxt h1 = (link nxt h)(c := Some None)" "link prev h1 = (link prev h)(c := Some None)"
    "val_at h1 = (val_at h)(c := Some x)" "\<forall>a. (cells h1 a = None) = (a \<noteq> c \<and> cells h a = None)"
    using new_ValueNode_effect[OF new] by auto
  have Lin: "?L \<in> set (fg # as)" by (rule last_in)
  have Rin: "?R \<in> set (bs @ [lg])" by (rule hd_snoc_in)
  have fresh: "\<And>a. a \<in> set (fg # (as @ bs) @ [lg]) \<Longrightarrow> a \<noteq> c" using r(2) n(1) by auto
  have Lc: "?L \<noteq> c" using Lin fresh by auto
  have Rc: "?R \<noteq> c" using Rin fresh by auto
  have LR: "?L \<noteq> ?R" using Lin Rin r(1) by auto
  have nL: "link nxt h ?L = Some (Some ?R)" using chain_link_at[OF r(3)] .
  have r4: "chain (link prev h) lg (rev bs @ rev as) fg" using r(4) by simp
  have pR: "link prev h ?R = Some (Some ?L)"
    using chain_link_at[OF r4] unfolding last_Cons_rev hd_rev_snoc .
  show "link prev h1 ?R = Some (Some ?L)" using pR n(4) Rc by simp
  show "link nxt h1 ?L = Some (Some ?R)" using nL n(3) Lc by simp
  have al: "cells h1 ?L \<noteq> None" "cells h1 ?R \<noteq> None" "cells h1 c \<noteq> None"
    using n(6) nL pR Lc Rc link_allocated by (metis)+
  obtain h2 where h2: "insertBetween (Some ?L) (Some ?R) (Some c) h1 = Some h2"
    "link nxt h2 = (link nxt h1)(?L := Some (Some c), c := Some (Some ?R))"
    "link prev h2 = (link prev h1)(c := Some (Some ?L), ?R := Some (Some c))"
    "val_at h2 = val_at h1" "brk h2 = brk h1"
    using insertBetween_effect[OF al] by blast
  have c1: "chain (link nxt h2) fg (as @ c # bs) lg"
  proof (rule chain_insert[OF r(3)])
    show "link nxt h2 ?L = Some (Some c)" using h2(2) Lc by simp
    show "link nxt h2 c = Some (Some ?R)" using h2(2) by simp
    fix a assume a: "a \<in> set (butlast (fg # as)) \<union> set bs"
    then have "a \<noteq> ?L"
      using butlast_not_last[of "fg # as" a] r(1) Lin by auto
    moreover have "a \<noteq> c" using a fresh in_butlast[of a "fg # as"] by auto
    ultimately show "link nxt h2 a = link nxt h a" using h2(2) n(3) by simp
  qed
  have "chain (link prev h2) lg (rev bs @ c # rev as) fg"
  proof (rule chain_insert[OF r4])
    show "link prev h2 (last (lg # rev bs)) = Some (Some c)"
      unfolding last_Cons_rev using h2(3) by simp
    show "link prev h2 c = Some (Some (hd (rev as @ [fg])))"
      unfolding hd_rev_snoc using h2(3) Rc by simp
    fix a assume a: "a \<in> set (butlast (lg # rev bs)) \<union> set (rev as)"
    have d: "distinct (lg # rev bs)" using r(1) by auto
    have "a \<in> set (butlast (lg # rev bs)) \<Longrightarrow> a \<noteq> ?R"
      using butlast_not_last[OF d, of a] unfolding last_Cons_rev .
    moreover have "a \<in> set (rev as) \<Longrightarrow> a \<noteq> ?R" using Rin r(1) by auto
    ultimately have "a \<noteq> ?R" using a by blast
    moreover have "a \<noteq> c" using a fresh in_butlast[of a "lg # rev bs"] by auto
    ultimately show "link prev h2 a = link prev h a" using h2(3) n(4) by simp
  qed
  then have c2: "chain (link prev h2) lg (rev (as @ c # bs)) fg" by simp
  have v: "map (val_at h) as = map Some xs" "map (val_at h) bs = map Some ys"
    using r(7) len by auto
  have v2: "map (val_at h2) (as @ c # bs) = map Some (xs @ x # ys)"
    using v h2(4) n(5) fresh by (auto simp: map_eq_conv cong: map_cong)
  have "LinkedList_rep h2 (l\<lparr>size_l := size_l l + 1\<rparr>) (as @ c # bs) (xs @ x # ys)"
    by (rule LinkedList_repI[where fg = fg and lg = lg])
       (use g r c1 c2 v2 h2 n fresh in \<open>auto simp: less_Suc_eq\<close>)
  then show "\<exists>h2. insertBetween (Some ?L) (Some ?R) (Some c) h1 = Some h2
           \<and> LinkedList_rep h2 (l\<lparr>size_l := size_l l + 1\<rparr>) (as @ c # bs) (xs @ x # ys)"
    using h2(1) by blast
qed


lemma nth_snoc_hd_drop: "i \<le> length as \<Longrightarrow> (as @ [q]) ! i = hd (drop i as @ [q])"
proof (induction as arbitrary: i)
  case Nil
  then show ?case by simp
next
  case (Cons a as)
  then show ?case by (cases i) auto
qed

lemma cursor_node:
  assumes "LinkedList_cursor_at l as it i" "lastGuard l = Some lg"
  shows "currentNode it = Some (hd (drop i as @ [lg]))" and "i \<le> length as"
proof -
  from assms have i: "i \<le> length as" and c: "currentNode it = (map Some as @ [Some lg]) ! i"
    by (simp_all add: LinkedList_cursor_at_def)
  have "(map Some as @ [Some lg]) ! i = map Some (as @ [lg]) ! i" by simp
  also have "\<dots> = Some ((as @ [lg]) ! i)" using i by (simp del: map_append)
  also have "(as @ [lg]) ! i = hd (drop i as @ [lg])" using i by (rule nth_snoc_hd_drop)
  finally show "currentNode it = Some (hd (drop i as @ [lg]))" using c by simp
  show "i \<le> length as" by (rule i)
qed

subsection \<open>Insertion into a well-formed list\<close>

lemma LinkedList_insert_rep:
  assumes rep: "LinkedList_rep h l as xs" and cur: "LinkedList_cursor_at l as insertPosition i"
  shows "\<exists>l' h'. LinkedList_insert insertPosition x l h = Returns () (l', h')
           \<and> LinkedList_rep h' l' (take i as @ brk h # drop i as) (take i xs @ x # drop i xs)"
proof -
  from rep obtain fg lg where g: "firstGuard l = Some fg" "lastGuard l = Some lg"
    and len: "length as = length xs" by (rule LinkedList_repE)
  obtain c h1 where new: "new_ValueNode x h = (c, h1)" by (cases "new_ValueNode x h")
  have c: "c = brk h" using new_ValueNode_effect[OF new] by simp
  have cn: "currentNode insertPosition = Some (hd (drop i as @ [lg]))" and i: "i \<le> length as"
    using cursor_node[OF cur g(2)] by auto
  have rep': "LinkedList_rep h l (take i as @ drop i as) (take i xs @ drop i xs)" using rep by simp
  have len': "length (take i as) = length (take i xs)" using len by simp
  note sp = splice_in[OF rep' len' g new]
  obtain h2 where h2: "insertBetween (Some (last (fg # take i as))) (Some (hd (drop i as @ [lg]))) (Some c) h1 = Some h2"
    "LinkedList_rep h2 (l\<lparr>size_l := size_l l + 1\<rparr>) (take i as @ c # drop i as) (take i xs @ x # drop i xs)"
    using sp(1) by blast
  have "LinkedList_insert insertPosition x l h = Returns () (l\<lparr>size_l := size_l l + 1\<rparr>, h2)"
    using new cn sp(2) h2(1) by (simp add: LinkedList_insert_def getCurrentNode_def)
  then show ?thesis using h2(2) c by auto
qed


lemma LinkedList_append_rep:
  assumes rep: "LinkedList_rep h l as xs"
  shows "\<exists>l' h'. LinkedList_append x l h = Returns () (l', h')
           \<and> LinkedList_rep h' l' (as @ [brk h]) (xs @ [x])"
proof -
  from rep obtain fg lg where g: "firstGuard l = Some fg" "lastGuard l = Some lg"
    and len: "length as = length xs" by (rule LinkedList_repE)
  obtain c h1 where new: "new_ValueNode x h = (c, h1)" by (cases "new_ValueNode x h")
  have c: "c = brk h" using new_ValueNode_effect[OF new] by simp
  have rep': "LinkedList_rep h l (as @ []) (xs @ [])" using rep by simp
  note sp = splice_in[OF rep' len g new]
  obtain h2 where h2: "insertBetween (Some (last (fg # as))) (Some (hd ([] @ [lg]))) (Some c) h1 = Some h2"
    "LinkedList_rep h2 (l\<lparr>size_l := size_l l + 1\<rparr>) (as @ c # []) (xs @ x # [])"
    using sp(1) by blast
  have "LinkedList_append x l h = Returns () (l\<lparr>size_l := size_l l + 1\<rparr>, h2)"
    using new g sp(2) h2(1) by (simp add: LinkedList_append_def getLast_def)
  then show ?thesis using h2(2) c by auto
qed

lemma LinkedList_prepend_rep:
  assumes rep: "LinkedList_rep h l as xs"
  shows "\<exists>l' h'. LinkedList_prepend x l h = Returns () (l', h')
           \<and> LinkedList_rep h' l' (brk h # as) (x # xs)"
proof -
  from rep obtain fg lg where g: "firstGuard l = Some fg" "lastGuard l = Some lg"
    and len: "length as = length xs" by (rule LinkedList_repE)
  obtain c h1 where new: "new_ValueNode x h = (c, h1)" by (cases "new_ValueNode x h")
  have c: "c = brk h" using new_ValueNode_effect[OF new] by simp
  have rep': "LinkedList_rep h l ([] @ as) ([] @ xs)" using rep by simp
  have len': "length ([] :: nat list) = length ([] :: 'a list)" by simp
  note sp = splice_in[OF rep' len' g new]
  obtain h2 where h2: "insertBetween (Some (last (fg # []))) (Some (hd (as @ [lg]))) (Some c) h1 = Some h2"
    "LinkedList_rep h2 (l\<lparr>size_l := size_l l + 1\<rparr>) ([] @ c # as) ([] @ x # xs)"
    using sp(1) by blast
  have "LinkedList_prepend x l h = Returns () (l\<lparr>size_l := size_l l + 1\<rparr>, h2)"
    using new g sp(3) h2(1) by (simp add: LinkedList_prepend_def getFirst_def)
  then show ?thesis using h2(2) c by auto
qed

subsection \<open>Removal from a well-formed list\<close>

lemma delete_Node_cells:
  "cells h a \<noteq> None \<Longrightarrow>
     delete_Node (Some a) h = Some (h\<lparr>cells := (cells h)(a := None)\<rparr>)"
  by (auto simp: delete_Node_def free_def split: option.splits)

text \<open>What the data model says about one value node.\<close>

lemma rep_node:
  assumes rep: "LinkedList_rep h l (as @ m # bs) (xs @ y # ys)" and len: "length as = length xs"
    and g: "firstGuard l = Some fg" "lastGuard l = Some lg"
  shows "link nxt h m = Some (Some (hd (bs @ [lg])))"
    and "link prev h m = Some (Some (last (fg # as)))"
    and "val_at h m = Some y" and "m \<noteq> lg" and "m \<noteq> fg"
    and "link nxt h (last (fg # as)) = Some (Some m)"
    and "link prev h (hd (bs @ [lg])) = Some (Some m)"
proof -
  from rep g have r: "distinct (fg # (as @ m # bs) @ [lg])"
    "chain (link nxt h) fg (as @ m # bs) lg" "chain (link prev h) lg (rev (as @ m # bs)) fg"
    "map (val_at h) (as @ m # bs) = map Some (xs @ y # ys)"
    by (auto elim!: LinkedList_repE)
  have "chain (link nxt h) fg ((as @ [m]) @ bs) lg" using r(2) by simp
  from chain_link_at[OF this] show "link nxt h m = Some (Some (hd (bs @ [lg])))" by simp
  have "chain (link prev h) lg ((rev bs @ [m]) @ rev as) fg" using r(3) by simp
  from chain_link_at[OF this] show "link prev h m = Some (Some (last (fg # as)))"
    unfolding hd_rev_snoc by simp
  show "val_at h m = Some y" using r(4) len by auto
  show "m \<noteq> lg" "m \<noteq> fg" using r(1) by auto
  have "hd ((m # bs) @ [lg]) = m" by simp
  with chain_link_at[OF r(2)] show "link nxt h (last (fg # as)) = Some (Some m)" by simp
  have "chain (link prev h) lg (rev bs @ (m # rev as)) fg" using r(3) by simp
  from chain_link_at[OF this] show "link prev h (hd (bs @ [lg])) = Some (Some m)"
    unfolding last_Cons_rev by simp
qed

text \<open>The nodes \<open>mid\<close> are unlinked by one call of \<open>collapseNodes\<close>; they stay allocated.\<close>

lemma splice_out:
  assumes rep: "LinkedList_rep h l (as @ mid @ bs) (xs @ ms @ ys)"
    and len: "length as = length xs" "length mid = length ms"
    and g: "firstGuard l = Some fg" "lastGuard l = Some lg"
  shows "\<exists>h1. collapseNodes (Some (last (fg # as))) (Some (hd (bs @ [lg]))) h = Some h1
           \<and> LinkedList_rep h1 (l\<lparr>size_l := length (xs @ ys)\<rparr>) (as @ bs) (xs @ ys)
           \<and> brk h1 = brk h
           \<and> (\<forall>a \<in> set mid. link nxt h1 a = link nxt h a \<and> cells h1 a \<noteq> None)"
proof -
  let ?L = "last (fg # as)" and ?R = "hd (bs @ [lg])"
  from rep g have r: "distinct (fg # (as @ mid @ bs) @ [lg])"
    "\<forall>a \<in> set (fg # (as @ mid @ bs) @ [lg]). a < brk h"
    "chain (link nxt h) fg (as @ mid @ bs) lg" "chain (link prev h) lg (rev (as @ mid @ bs)) fg"
    "val_at h fg = None" "val_at h lg = None"
    "map (val_at h) (as @ mid @ bs) = map Some (xs @ ms @ ys)"
    "currentNode (endIterator l) = Some lg"
    by (auto elim!: LinkedList_repE)
  have Lin: "?L \<in> set (fg # as)" by (rule last_in)
  have Rin: "?R \<in> set (bs @ [lg])" by (rule hd_snoc_in)
  have r4: "chain (link prev h) lg (rev bs @ rev mid @ rev as) fg" using r(4) by simp
  have al: "cells h ?L \<noteq> None" "cells h ?R \<noteq> None"
  proof -
    have "?L \<in> set (fg # as @ mid @ bs)" using Lin by auto
    from chain_allocated[OF r(3) this] show "cells h ?L \<noteq> None" using link_allocated by blast
    have "?R \<in> set (lg # rev bs @ rev mid @ rev as)" using Rin by auto
    from chain_allocated[OF r4 this] show "cells h ?R \<noteq> None" using link_allocated by blast
  qed
  obtain h1 where h1: "collapseNodes (Some ?L) (Some ?R) h = Some h1"
    "link nxt h1 = (link nxt h)(?L := Some (Some ?R))"
    "link prev h1 = (link prev h)(?R := Some (Some ?L))"
    "val_at h1 = val_at h" "brk h1 = brk h" "\<forall>a. (cells h1 a = None) = (cells h a = None)"
    using collapseNodes_effect[OF al] by blast
  have c1: "chain (link nxt h1) fg (as @ bs) lg"
  proof (rule chain_cut[OF r(3)])
    show "link nxt h1 ?L = Some (Some ?R)" using h1(2) by simp
    fix a assume a: "a \<in> set (butlast (fg # as)) \<union> set bs"
    have d: "distinct (fg # as)" using r(1) by auto
    have "a \<in> set (butlast (fg # as)) \<Longrightarrow> a \<noteq> ?L" using butlast_not_last[OF d, of a] .
    moreover have "a \<in> set bs \<Longrightarrow> a \<noteq> ?L" using Lin r(1) by auto
    ultimately have "a \<noteq> ?L" using a by blast
    then show "link nxt h1 a = link nxt h a" using h1(2) by simp
  qed
  have "chain (link prev h1) lg (rev bs @ rev as) fg"
  proof (rule chain_cut[OF r4])
    show "link prev h1 (last (lg # rev bs)) = Some (Some (hd (rev as @ [fg])))"
      unfolding last_Cons_rev hd_rev_snoc using h1(3) by simp
    fix a assume a: "a \<in> set (butlast (lg # rev bs)) \<union> set (rev as)"
    have d: "distinct (lg # rev bs)" using r(1) by auto
    have "a \<in> set (butlast (lg # rev bs)) \<Longrightarrow> a \<noteq> ?R"
      using butlast_not_last[OF d, of a] unfolding last_Cons_rev .
    moreover have "a \<in> set (rev as) \<Longrightarrow> a \<noteq> ?R" using Rin r(1) by auto
    ultimately have "a \<noteq> ?R" using a by blast
    then show "link prev h1 a = link prev h a" using h1(3) by simp
  qed
  then have c2: "chain (link prev h1) lg (rev (as @ bs)) fg" by simp
  have v: "map (val_at h) as = map Some xs" "map (val_at h) bs = map Some ys"
    using r(7) len by auto
  have rep1: "LinkedList_rep h1 (l\<lparr>size_l := length (xs @ ys)\<rparr>) (as @ bs) (xs @ ys)"
    by (rule LinkedList_repI[where fg = fg and lg = lg])
       (use g r c1 c2 v h1 in auto)
  have m: "\<forall>a \<in> set mid. link nxt h1 a = link nxt h a \<and> cells h1 a \<noteq> None"
  proof
    fix a assume a: "a \<in> set mid"
    then have "a \<noteq> ?L" using Lin r(1) by auto
    then have 1: "link nxt h1 a = link nxt h a" using h1(2) by simp
    have "a \<in> set (fg # as @ mid @ bs)" using a by auto
    from chain_allocated[OF r(3) this] have "cells h a \<noteq> None" using link_allocated by blast
    then show "link nxt h1 a = link nxt h a \<and> cells h1 a \<noteq> None" using 1 h1(6) by simp
  qed
  show ?thesis using h1(1) rep1 h1(5) m by blast
qed

text \<open>Deleting a node that is not on the chain leaves the list as it is.\<close>

lemma delete_unlinked:
  assumes rep: "LinkedList_rep h l as xs" and g: "firstGuard l = Some fg" "lastGuard l = Some lg"
    and a: "a \<notin> set (fg # as @ [lg])" "cells h a \<noteq> None"
  shows "\<exists>h'. delete_Node (Some a) h = Some h' \<and> LinkedList_rep h' l as xs
           \<and> cells h' = (cells h)(a := None) \<and> brk h' = brk h"
proof -
  let ?h' = "h\<lparr>cells := (cells h)(a := None)\<rparr>"
  have "LinkedList_rep ?h' l as xs"
    by (rule LinkedList_rep_frame[OF rep]) (use g a in auto)
  then show ?thesis using delete_Node_cells[OF a(2)] by simp
qed

lemma get_value_val_at [simp]: "get_value (Some a) h = val_at h a"
  by (simp add: get_value_def node_at_def val_at_def)

lemma dynamic_cast_ValueNode_value:
  "val_at h a = Some y \<Longrightarrow> dynamic_cast_ValueNode (Some a) h = Some (Some a)"
  by (auto simp: dynamic_cast_ValueNode_def val_at_def split: option.splits)

text \<open>One value node is unlinked and deleted: the common part of the pops and of \<open>erase\<close>.\<close>

lemma remove_one:
  assumes rep: "LinkedList_rep h l (as @ m # bs) (xs @ y # ys)" and len: "length as = length xs"
    and g: "firstGuard l = Some fg" "lastGuard l = Some lg"
  shows "\<exists>h1 l' h'. collapseNodes (Some (last (fg # as))) (Some (hd (bs @ [lg]))) h = Some h1
           \<and> deleteNode (Some m) l h1 = Some (l', h')
           \<and> LinkedList_rep h' l' (as @ bs) (xs @ ys)"
proof -
  have rep': "LinkedList_rep h l (as @ [m] @ bs) (xs @ [y] @ ys)" using rep by simp
  obtain h1 where h1: "collapseNodes (Some (last (fg # as))) (Some (hd (bs @ [lg]))) h = Some h1"
    "LinkedList_rep h1 (l\<lparr>size_l := length (xs @ ys)\<rparr>) (as @ bs) (xs @ ys)"
    "\<forall>a \<in> set [m]. link nxt h1 a = link nxt h a \<and> cells h1 a \<noteq> None"
    using splice_out[OF rep' len _ g] by auto
  from rep g have d: "distinct (fg # (as @ m # bs) @ [lg])" and sz: "size_l l = length (xs @ y # ys)"
    by (auto elim!: LinkedList_repE)
  have m: "m \<notin> set (fg # (as @ bs) @ [lg])" "cells h1 m \<noteq> None" using d h1(3) by auto
  have g': "firstGuard (l\<lparr>size_l := length (xs @ ys)\<rparr>) = Some fg"
    "lastGuard (l\<lparr>size_l := length (xs @ ys)\<rparr>) = Some lg" using g by simp_all
  obtain h' where h': "delete_Node (Some m) h1 = Some h'"
    "LinkedList_rep h' (l\<lparr>size_l := length (xs @ ys)\<rparr>) (as @ bs) (xs @ ys)"
    using delete_unlinked[OF h1(2) g' m] by blast
  have "size_sub (size_l l) 1 = length (xs @ ys)" using sz by (simp add: size_sub_def)
  then have "deleteNode (Some m) l h1 = Some (l\<lparr>size_l := length (xs @ ys)\<rparr>, h')"
    using h'(1) by (simp add: deleteNode_def)
  then show ?thesis using h1(1) h'(2) by blast
qed

lemma LinkedList_popFirst_rep:
  assumes rep: "LinkedList_rep h l as xs" and ne: "xs \<noteq> []"
  shows "\<exists>l' h'. LinkedList_popFirst l h = Returns (hd xs) (l', h')
           \<and> LinkedList_rep h' l' (tl as) (tl xs)"
proof -
  from rep obtain fg lg where g: "firstGuard l = Some fg" "lastGuard l = Some lg"
    and len: "length as = length xs" and sz: "size_l l = length xs" by (rule LinkedList_repE)
  obtain y ys where xs: "xs = y # ys" using ne by (cases xs) auto
  obtain m bs where as: "as = m # bs" using len xs by (cases as) auto
  have rep': "LinkedList_rep h l ([] @ m # bs) ([] @ y # ys)" using rep xs as by simp
  have len': "length ([] :: nat list) = length ([] :: 'a list)" by simp
  note n = rep_node[OF rep' len' g]
  obtain h1 l' h' where r: "collapseNodes (Some (last (fg # []))) (Some (hd (bs @ [lg]))) h = Some h1"
    "deleteNode (Some m) l h1 = Some (l', h')" "LinkedList_rep h' l' ([] @ bs) ([] @ ys)"
    using remove_one[OF rep' len' g] by blast
  have "LinkedList_popFirst l h = Returns y (l', h')"
    using g sz xs n(1) n(3) n(6) r(1) r(2) dynamic_cast_ValueNode_value[OF n(3)]
    by (simp add: LinkedList_popFirst_def LinkedList_throwIfCollectionEmpty_def
        LinkedList_isEmpty_def getFirstValueNode_def)
  then show ?thesis using r(3) xs as by auto
qed

lemma LinkedList_popLast_rep:
  assumes rep: "LinkedList_rep h l as xs" and ne: "xs \<noteq> []"
  shows "\<exists>l' h'. LinkedList_popLast l h = Returns (last xs) (l', h')
           \<and> LinkedList_rep h' l' (butlast as) (butlast xs)"
proof -
  from rep obtain fg lg where g: "firstGuard l = Some fg" "lastGuard l = Some lg"
    and len: "length as = length xs" and sz: "size_l l = length xs" by (rule LinkedList_repE)
  obtain ys y where xs: "xs = ys @ [y]" using ne by (cases xs rule: rev_cases) auto
  obtain bs m where as: "as = bs @ [m]" using len xs by (cases as rule: rev_cases) auto
  have len': "length bs = length ys" using len xs as by simp
  have rep': "LinkedList_rep h l (bs @ m # []) (ys @ y # [])" using rep xs as by simp
  note n = rep_node[OF rep' len' g]
  obtain h1 l' h' where r: "collapseNodes (Some (last (fg # bs))) (Some (hd ([] @ [lg]))) h = Some h1"
    "deleteNode (Some m) l h1 = Some (l', h')" "LinkedList_rep h' l' (bs @ []) (ys @ [])"
    using remove_one[OF rep' len' g] by blast
  have "LinkedList_popLast l h = Returns y (l', h')"
    using g sz xs n(2) n(3) n(7) r(1) r(2) dynamic_cast_ValueNode_value[OF n(3)]
    by (simp add: LinkedList_popLast_def LinkedList_throwIfCollectionEmpty_def
        LinkedList_isEmpty_def getLastValueNode_def)
  then show ?thesis using r(3) xs as by auto
qed

lemma LinkedList_erase_rep:
  assumes rep: "LinkedList_rep h l as xs" and cur: "LinkedList_cursor_at l as possition i"
    and i: "i < length xs"
  shows "\<exists>l' h'. LinkedList_erase possition l h = Returns () (l', h')
           \<and> LinkedList_rep h' l' (take i as @ drop (Suc i) as) (take i xs @ drop (Suc i) xs)"
proof -
  from rep obtain fg lg where g: "firstGuard l = Some fg" "lastGuard l = Some lg"
    and len: "length as = length xs" and sz: "size_l l = length xs"
    and e: "currentNode (endIterator l) = Some lg" by (rule LinkedList_repE)
  have as: "as = take i as @ as ! i # drop (Suc i) as" using i len by (simp add: id_take_nth_drop)
  have xs: "xs = take i xs @ xs ! i # drop (Suc i) xs" using i by (simp add: id_take_nth_drop)
  have rep': "LinkedList_rep h l (take i as @ as ! i # drop (Suc i) as) (take i xs @ xs ! i # drop (Suc i) xs)"
    using rep as xs by simp
  have len': "length (take i as) = length (take i xs)" using len by simp
  note n = rep_node[OF rep' len' g]
  have cn: "currentNode possition = Some (as ! i)"
    using cursor_node(1)[OF cur g(2)] i len by (simp add: hd_drop_conv_nth)
  obtain h1 l' h' where r:
    "collapseNodes (Some (last (fg # take i as))) (Some (hd (drop (Suc i) as @ [lg]))) h = Some h1"
    "deleteNode (Some (as ! i)) l h1 = Some (l', h')"
    "LinkedList_rep h' l' (take i as @ drop (Suc i) as) (take i xs @ drop (Suc i) xs)"
    using remove_one[OF rep' len' g] by blast
  have ne: "size_l l \<noteq> 0" using sz i by auto
  have "LinkedList_erase possition l h = Returns () (l', h')"
    using ne cn e n(1) n(2) n(4) r(1) r(2)
    by (simp add: LinkedList_erase_def LinkedList_throwIfCollectionEmpty_def
        LinkedList_isEmpty_def LinkedList_throwIfIteratorEqaulsEnd_def LinkedList_eq_def
        getCurrentNode_def)
  then show ?thesis using r(3) by blast
qed

subsection \<open>Range erase\<close>





subsection \<open>Traversal of a well-formed list\<close>




subsection \<open>Construction and sequences of insertions\<close>


lemma LinkedList_copyFrom_rep:
  assumes "LinkedList_rep h l as xs"
  shows "\<exists>l' h' bs. LinkedList_copyFrom ys l h = Returns () (l', h') \<and> LinkedList_rep h' l' (as @ bs) (xs @ ys)"
  using assms
proof (induction ys arbitrary: l h as xs)
  case Nil
  then show ?case by (auto intro: exI[of _ "[]"])
next
  case (Cons y ys)
  obtain l1 h1 where a: "LinkedList_append y l h = Returns () (l1, h1)"
    "LinkedList_rep h1 l1 (as @ [brk h]) (xs @ [y])"
    using LinkedList_append_rep[OF Cons.prems] by blast
  obtain l' h' bs where "LinkedList_copyFrom ys l1 h1 = Returns () (l', h')"
    "LinkedList_rep h' l' ((as @ [brk h]) @ bs) ((xs @ [y]) @ ys)"
    using Cons.IH[OF a(2)] by blast
  then show ?case using a(1) by (auto intro: exI[of _ "brk h # bs"])
qed

lemma LinkedList_prependAll_rep:
  assumes "LinkedList_rep h l as xs"
  shows "\<exists>l' h' bs. LinkedList_prependAll ys l h = Returns () (l', h') \<and> LinkedList_rep h' l' (bs @ as) (rev ys @ xs)"
  using assms
proof (induction ys arbitrary: l h as xs)
  case Nil
  then show ?case by (auto intro: exI[of _ "[]"])
next
  case (Cons y ys)
  obtain l1 h1 where a: "LinkedList_prepend y l h = Returns () (l1, h1)"
    "LinkedList_rep h1 l1 (brk h # as) (y # xs)"
    using LinkedList_prepend_rep[OF Cons.prems] by blast
  obtain l' h' bs where "LinkedList_prependAll ys l1 h1 = Returns () (l', h')"
    "LinkedList_rep h' l' (bs @ brk h # as) (rev ys @ y # xs)"
    using Cons.IH[OF a(2)] by blast
  then show ?case using a(1) by (auto intro: exI[of _ "bs @ [brk h]"])
qed

subsection \<open>Destruction\<close>

lemma deleteList_loop_spec:
  assumes d: "distinct mid" "lg \<notin> set mid"
    and c: "mid \<noteq> [] \<longrightarrow> chain (link nxt h) (hd mid) (tl mid) lg"
  shows "\<exists>h'. deleteList_loop (Some lg) (Some (hd (mid @ [lg]))) h = Some (Some h')
           \<and> brk h' = brk h \<and> cells h' = (\<lambda>a. if a \<in> set mid then None else cells h a)"
  using d c
proof (induction mid arbitrary: h)
  case Nil
  then show ?case by (subst deleteList_loop.simps) simp
next
  case (Cons m ms)
  have ch: "chain (link nxt h) m ms lg" using Cons.prems by simp
  have nx: "link nxt h m = Some (Some (hd (ms @ [lg])))" using chain_first[OF ch] .
  have al: "cells h m \<noteq> None" using nx link_allocated by blast
  let ?h1 = "h\<lparr>cells := (cells h)(m := None)\<rparr>"
  have del: "delete_Node (Some m) h = Some ?h1" using delete_Node_cells[OF al] .
  have c1: "ms \<noteq> [] \<longrightarrow> chain (link nxt ?h1) (hd ms) (tl ms) lg"
  proof
    assume ne: "ms \<noteq> []"
    then obtain b bs where ms: "ms = b # bs" by (cases ms) auto
    then have "chain (link nxt h) b bs lg" using ch by simp
    moreover have "chain (link nxt ?h1) b bs lg = chain (link nxt h) b bs lg"
      by (rule chain_cong) (use Cons.prems ms in \<open>auto simp: link_def\<close>)
    ultimately show "chain (link nxt ?h1) (hd ms) (tl ms) lg" using ms by simp
  qed
  have "\<exists>h'. deleteList_loop (Some lg) (Some (hd (ms @ [lg]))) ?h1 = Some (Some h')
           \<and> brk h' = brk ?h1 \<and> cells h' = (\<lambda>a. if a \<in> set ms then None else cells ?h1 a)"
    by (rule Cons.IH) (use Cons.prems c1 in auto)
  then obtain h' where h': "deleteList_loop (Some lg) (Some (hd (ms @ [lg]))) ?h1 = Some (Some h')"
    "brk h' = brk ?h1" "cells h' = (\<lambda>a. if a \<in> set ms then None else cells ?h1 a)"
    by blast
  have "deleteList_loop (Some lg) (Some (hd ((m # ms) @ [lg]))) h = Some (Some h')"
    using nx del h'(1) Cons.prems(2)
    by (subst deleteList_loop.simps) simp
  moreover have "cells h' = (\<lambda>a. if a \<in> set (m # ms) then None else cells h a)"
    using h'(3) by (auto simp: fun_eq_iff)
  ultimately show ?case using h'(2) by auto
qed

lemma deleteList_rep:
  assumes rep: "LinkedList_rep h l as xs" and g: "firstGuard l = Some fg" "lastGuard l = Some lg"
  shows "\<exists>l' h'. deleteList l h = Some (Some (l', h')) \<and> LinkedList_rep h' l' [] []
           \<and> firstGuard l' = Some fg \<and> lastGuard l' = Some lg \<and> brk h' = brk h
           \<and> (\<forall>a. a \<notin> set (fg # as @ [lg]) \<longrightarrow> cells h' a = cells h a)
           \<and> (\<forall>a \<in> set as. cells h' a = None)"
proof -
  from rep g have r: "distinct (fg # as @ [lg])" "\<forall>a \<in> set (fg # as @ [lg]). a < brk h"
    "chain (link nxt h) fg as lg" "chain (link prev h) lg (rev as) fg"
    "val_at h fg = None" "val_at h lg = None" "size_l l = length xs"
    "currentNode (endIterator l) = Some lg" "length as = length xs"
    by (auto elim!: LinkedList_repE)
  show ?thesis
  proof (cases as)
    case Nil
    then have "link nxt h fg = Some (Some lg)" "link prev h lg = Some (Some fg)" using r by auto
    then have "deleteList l h = Some (Some (l, h))" using g by (simp add: deleteList_def)
    then show ?thesis using rep Nil r(9) g by auto
  next
    case (Cons m ms)
    have nf: "link nxt h fg = Some (Some m)" using r(3) Cons by simp
    have ml: "m \<noteq> lg" using r(1) Cons by auto
    have dm: "distinct as" "lg \<notin> set as" using r(1) by auto
    have cm: "as \<noteq> [] \<longrightarrow> chain (link nxt h) (hd as) (tl as) lg" using r(3) Cons by simp
    obtain h1 where h1: "deleteList_loop (Some lg) (Some (hd (as @ [lg]))) h = Some (Some h1)"
      "brk h1 = brk h" "cells h1 = (\<lambda>a. if a \<in> set as then None else cells h a)"
      using deleteList_loop_spec[OF dm cm] by blast
    have fa: "fg \<notin> set as" "lg \<notin> set as" "fg \<noteq> lg" using r(1) by auto
    have alf: "cells h fg \<noteq> None" using nf link_allocated by blast
    have "link prev h lg \<noteq> None" using chain_first[OF r(4)] by simp
    then have all: "cells h lg \<noteq> None" by (auto simp: link_def)
    have al1: "cells h1 fg \<noteq> None" "cells h1 lg \<noteq> None" using h1(3) fa alf all by auto
    obtain h2 where h2: "collapseNodes (Some fg) (Some lg) h1 = Some h2"
      "link nxt h2 = (link nxt h1)(fg := Some (Some lg))"
      "link prev h2 = (link prev h1)(lg := Some (Some fg))"
      "val_at h2 = val_at h1" "brk h2 = brk h1" "\<forall>a. (cells h2 a = None) = (cells h1 a = None)"
      using collapseNodes_effect[OF al1] by blast
    have other: "\<forall>a. a \<noteq> fg \<and> a \<noteq> lg \<longrightarrow> cells h2 a = cells h1 a"
      using h2(1) al1
      by (auto simp: collapseNodes_def set_next_def set_prev_def split: option.splits if_splits)
    have v: "val_at h2 fg = None" "val_at h2 lg = None"
      using h2(4) h1(3) fa r(5,6) by (simp_all add: val_at_def)
    have rep2: "LinkedList_rep h2 (l\<lparr>size_l := 0\<rparr>) [] []"
      by (rule LinkedList_repI[where fg = fg and lg = lg])
         (use g r h2 h1 v fa in auto)
    have "deleteList l h = Some (Some (l\<lparr>size_l := 0\<rparr>, h2))"
      using g nf ml h1(1) h2(1) Cons
      by (simp add: deleteList_def getFirst_def collapseList_def)
    moreover have "\<forall>a. a \<notin> set (fg # as @ [lg]) \<longrightarrow> cells h2 a = cells h a"
      using other h1(3) by auto
    moreover have "\<forall>a \<in> set as. cells h2 a = None"
      using h2(6) h1(3) by auto
    ultimately show ?thesis using rep2 g h2(5) h1(2) by auto
  qed
qed


subsection \<open>Move\<close>



lemma collapseNodes_cells:
  assumes "cells h l \<noteq> None" "cells h r \<noteq> None"
  shows "\<exists>h'. collapseNodes (Some l) (Some r) h = Some h'
          \<and> link nxt h' = (link nxt h)(l := Some (Some r))
          \<and> link prev h' = (link prev h)(r := Some (Some l))
          \<and> val_at h' = val_at h \<and> brk h' = brk h
          \<and> (\<forall>a. (cells h' a = None) = (cells h a = None))
          \<and> (\<forall>a. a \<noteq> l \<and> a \<noteq> r \<longrightarrow> cells h' a = cells h a)"
proof -
  obtain h' where h': "collapseNodes (Some l) (Some r) h = Some h'"
    "link nxt h' = (link nxt h)(l := Some (Some r))"
    "link prev h' = (link prev h)(r := Some (Some l))"
    "val_at h' = val_at h" "brk h' = brk h" "\<forall>a. (cells h' a = None) = (cells h a = None)"
    using collapseNodes_effect[OF assms] by blast
  have "\<forall>a. a \<noteq> l \<and> a \<noteq> r \<longrightarrow> cells h' a = cells h a"
    using h'(1) assms
    by (auto simp: collapseNodes_def set_next_def set_prev_def split: option.splits if_splits)
  then show ?thesis using h' by blast
qed

lemma update_LinkedList_Some [simp]:
  "ls a = Some l \<Longrightarrow> update_LinkedList a f ls = Some (ls(a \<mapsto> f l))"
  by (simp add: update_LinkedList_def)





text \<open>A list that is move-assigned to itself is emptied.\<close>

lemma LinkedList_move_assign_self:
  assumes repa: "LinkedList_rep h a as xs" and obj: "ls this = Some a"
  shows "\<exists>a' h'. LinkedList_move_assign this this ls h = Some (Some (ls(this \<mapsto> a'), h'))
           \<and> LinkedList_rep h' a' [] []"
proof -
  from repa obtain fa la where ga: "firstGuard a = Some fa" "lastGuard a = Some la"
    by (rule LinkedList_repE)
  obtain a1 h1 where d: "deleteList a h = Some (Some (a1, h1))"
    "LinkedList_rep h1 a1 [] []" "firstGuard a1 = Some fa" "lastGuard a1 = Some la"
    using deleteList_rep[OF repa ga] by blast
  from repa have sz: "size_l a = length xs" "length as = length xs" by (auto elim: LinkedList_repE)
  have pre: "(if \<not> LinkedList_isEmpty a then deleteList a h else Some (Some (a, h)))
        = Some (Some (a1, h1))"
  proof (cases "xs = []")
    case True
    then have "as = []" using sz by simp
    then have "deleteList a h = Some (Some (a, h))"
      using repa ga by (auto simp: deleteList_def elim!: LinkedList_repE)
    then show ?thesis using d(1) True sz by (simp add: LinkedList_isEmpty_def)
  next
    case False
    then show ?thesis using d(1) sz by (simp add: LinkedList_isEmpty_def)
  qed
  from d(2,3,4) have r: "fa \<noteq> la" "link nxt h1 fa = Some (Some la)" "link prev h1 la = Some (Some fa)"
    "size_l a1 = 0"
    by (auto elim!: LinkedList_repE)
  have al: "cells h1 fa \<noteq> None" "cells h1 la \<noteq> None" using r by (auto simp: link_def)
  obtain h2 where h2: "collapseNodes (Some fa) (Some la) h1 = Some h2"
    "link nxt h2 = (link nxt h1)(fa := Some (Some la))"
    "link prev h2 = (link prev h1)(la := Some (Some fa))"
    "val_at h2 = val_at h1" "brk h2 = brk h1" "\<forall>x. (cells h2 x = None) = (cells h1 x = None)"
    "\<forall>x. x \<noteq> fa \<and> x \<noteq> la \<longrightarrow> cells h2 x = cells h1 x"
    using collapseNodes_cells[OF al] by blast
  have same: "link nxt h2 = link nxt h1" "link prev h2 = link prev h1"
    using h2(2,3) r by (auto simp: fun_eq_iff)
  have rep2: "LinkedList_rep h2 a1 [] []"
    using d(2) same h2(4,5) d(3,4)
    by (auto simp: LinkedList_rep_def split: option.splits)
  have al2: "cells h2 fa \<noteq> None" "cells h2 la \<noteq> None" using al h2(6) by auto
  obtain h3 where h3: "collapseNodes (Some fa) (Some la) h2 = Some h3"
    "link nxt h3 = (link nxt h2)(fa := Some (Some la))"
    "link prev h3 = (link prev h2)(la := Some (Some fa))"
    "val_at h3 = val_at h2" "brk h3 = brk h2" "\<forall>x. (cells h3 x = None) = (cells h2 x = None)"
    using collapseNodes_cells[OF al2] by blast
  have same3: "link nxt h3 = link nxt h2" "link prev h3 = link prev h2"
    using h3(2,3) same r by (auto simp: fun_eq_iff)
  have rep3: "LinkedList_rep h3 a1 [] []"
    using rep2 same3 h3(4,5) d(3,4)
    by (auto simp: LinkedList_rep_def split: option.splits)
  obtain h4 where h4: "collapseNodes (Some fa) (Some la) h3 = Some h4"
    "link nxt h4 = (link nxt h3)(fa := Some (Some la))"
    "link prev h4 = (link prev h3)(la := Some (Some fa))"
    "val_at h4 = val_at h3" "brk h4 = brk h3" "\<forall>x. (cells h4 x = None) = (cells h3 x = None)"
    using collapseNodes_cells[of h3 fa la] al2 h3(6) by auto
  have same4: "link nxt h4 = link nxt h3" "link prev h4 = link prev h3"
    using h4(2,3) same3 same r by (auto simp: fun_eq_iff)
  have rep4: "LinkedList_rep h4 (a1\<lparr>size_l := 0\<rparr>) [] []"
    using rep3 same4 h4(4,5) d(3,4)
    by (auto simp: LinkedList_rep_def split: option.splits)
  have "LinkedList_moveFrom this this (ls(this \<mapsto> a1)) h1
          = Some ((ls(this \<mapsto> a1))(this \<mapsto> a1\<lparr>size_l := 0\<rparr>), h4)"
    using d(3,4) r same same3 h2(1) h3(1) h4(1)
    by (simp add: LinkedList_moveFrom_def getFirst_def getLast_def collapseList_def)
  then have "LinkedList_move_assign this this ls h = Some (Some (ls(this \<mapsto> a1\<lparr>size_l := 0\<rparr>), h4))"
    using pre obj by (simp add: LinkedList_move_assign_def)
  then show ?thesis using rep4 by (intro exI[of _ "a1\<lparr>size_l := 0\<rparr>"] exI[of _ h4]) simp
qed

subsection \<open>The example list\<close>

lemma abc_list_rep: "LinkedList_rep abc_nodes abc_list [2, 3, 4] [1, 2, 3]"
  by (simp add: LinkedList_rep_def abc_nodes_def abc_list_def link_def val_at_def)


lemma abc_nil_ctor: "LinkedList_ctor 1 abc_nodes = Some (nil_list, abc_nil_nodes)"
  by (auto simp: LinkedList_ctor_def new_Node_def alloc_def collapseNodes_def set_next_def
      set_prev_def abc_nodes_def abc_nil_nodes_def nil_list_def fun_eq_iff)

lemma abc_list_ctor: "LinkedList_ctor_list [1, 2, 3] 0 empty_heap = Returns () (abc_list, abc_nodes)"
  by (auto simp: LinkedList_ctor_list_def LinkedList_ctor_def new_Node_def alloc_def empty_heap_def
      collapseNodes_def set_next_def set_prev_def LinkedList_append_def new_ValueNode_def
      getLast_def insertBetween_def abc_nodes_def abc_list_def link_def fun_eq_iff)

subsection \<open>Which calls on the list throw\<close>

lemma LinkedList_popFirst_Throws:
  "LinkedList_popFirst l h = Throws e s \<longleftrightarrow> size_l l = 0 \<and> e = logic_error \<and> s = (l, h)"
  by (auto simp: LinkedList_popFirst_def LinkedList_throwIfCollectionEmpty_def LinkedList_isEmpty_def
      split: option.splits prod.splits)

lemma LinkedList_popLast_Throws:
  "LinkedList_popLast l h = Throws e s \<longleftrightarrow> size_l l = 0 \<and> e = logic_error \<and> s = (l, h)"
  by (auto simp: LinkedList_popLast_def LinkedList_throwIfCollectionEmpty_def LinkedList_isEmpty_def
      split: option.splits prod.splits)






section \<open>The claims of the specification\<close>




text \<open>
  Claim C3: when an append would exceed the capacity, the capacity is doubled, and an
  array of capacity \<open>C\<close> that holds \<open>C\<close> elements keeps them, in order, when one more
  is appended, with the appended value last. The code at capacity 0 (\<^verbatim>\<open>Vector<nat> v(0)\<close>,
  \<^verbatim>\<open>v.append(7)\<close> with a temporary 7): \<^verbatim>\<open>reallocateMemoryIfNeeded\<close> doubles the capacity 0
  to 0, and \<^verbatim>\<open>append\<close> then writes \<^verbatim>\<open>elements[0]\<close> outside the buffer of no cells. (For a
  capacity of at least 1 the claim holds: lemma \<open>Vector_append_rep\<close>.)
\<close>

theorem C3_zero_capacity_append_is_undefined:
  "(case reallocateMemoryIfNeeded (fst (Vector_ctor 0 0 empty_heap)) (snd (Vector_ctor 0 0 (empty_heap :: nat array_heap))) of
      None \<Rightarrow> False
    | Some (v1, h1) \<Rightarrow> capacity v1 = 0 \<and> size_v v1 = 0 \<and>
        store (ptr_add (elements v1) (int (size_v v1))) 7 h1 = None) \<and>
   Vector_append (Temporary 7) (fst (Vector_ctor 0 0 empty_heap)) (snd (Vector_ctor 0 0 (empty_heap :: nat array_heap))) = Undefined"
  by (simp add: Vector_ctor_def new_array_def alloc_def empty_heap_def Vector_append_def
      reallocateMemoryIfNeeded_def reallocateMemory_def reallocateMemory_to_def
      delete_array_def free_def store_def)

text \<open>
  Claim C4: for every list cursor on a node other than \<^verbatim>\<open>begin()\<close>, the post-decrement
  \<^verbatim>\<open>it--\<close> returns a cursor on the old position and leaves the cursor on the predecessor
  node, like the pre-decrement except for the returned value.

  \<^verbatim>\<open>ConstIterator::operator--(int)\<close> calls \<^verbatim>\<open>operator++()\<close>. On the list \<open>[1, 2, 3]\<close>, built
  by the initializer-list constructor (guards at the nodes 0 and 1, values at the nodes
  2, 3, 4, \<^verbatim>\<open>begin()\<close> on the node 2), the post-decrement of a cursor on the node 3 returns
  a cursor on the node 3 and leaves the cursor on the node 4, the successor, where the
  pre-decrement and \<^verbatim>\<open>Iterator::operator--(int)\<close> leave it on the node 2. On \<^verbatim>\<open>end()\<close>, which
  is not \<^verbatim>\<open>begin()\<close> either, it throws, where the pre-decrement steps to the node 4.
\<close>

theorem C4_const_cursor_post_decrement_moves_forward:
  "LinkedList_ctor_list [1, 2, 3] 0 empty_heap = Returns () (abc_list, abc_nodes) \<and>
   abc_lists 0 = Some abc_list \<and>
   LinkedList_begin 0 abc_list abc_nodes = Some \<lparr>currentNode = Some 2, collection_l = Some 0\<rparr> \<and>
   LinkedList_ConstIterator_postdec abc_lists abc_nodes \<lparr>currentNode = Some 3, collection_l = Some 0\<rparr>
     = Returns \<lparr>currentNode = Some 3, collection_l = Some 0\<rparr>
               \<lparr>currentNode = Some 4, collection_l = Some 0\<rparr> \<and>
   LinkedList_predec abc_lists abc_nodes \<lparr>currentNode = Some 3, collection_l = Some 0\<rparr>
     = Returns () \<lparr>currentNode = Some 2, collection_l = Some 0\<rparr> \<and>
   LinkedList_Iterator_postdec abc_lists abc_nodes \<lparr>currentNode = Some 3, collection_l = Some 0\<rparr>
     = Returns \<lparr>currentNode = Some 3, collection_l = Some 0\<rparr>
               \<lparr>currentNode = Some 2, collection_l = Some 0\<rparr> \<and>
   LinkedList_ConstIterator_postdec abc_lists abc_nodes (LinkedList_end abc_list)
     = Throws out_of_range (LinkedList_end abc_list) \<and>
   LinkedList_predec abc_lists abc_nodes (LinkedList_end abc_list)
     = Returns () \<lparr>currentNode = Some 4, collection_l = Some 0\<rparr>"
proof -
  have o: "abc_lists 0 = Some abc_list" by (simp add: abc_lists_def)
  have b: "LinkedList_begin 0 abc_list abc_nodes = Some \<lparr>currentNode = Some 2, collection_l = Some 0\<rparr>"
    by (simp add: LinkedList_begin_def LinkedList_isEmpty_def getFirst_def get_next_def node_at_def
        abc_list_def abc_nodes_def)
  have 1: "LinkedList_ConstIterator_postdec abc_lists abc_nodes \<lparr>currentNode = Some 3, collection_l = Some 0\<rparr>
     = Returns \<lparr>currentNode = Some 3, collection_l = Some 0\<rparr>
               \<lparr>currentNode = Some 4, collection_l = Some 0\<rparr>"
    using o by (simp add: LinkedList_ConstIterator_postdec_def LinkedList_preinc_def LinkedList_throwIfEnd_def
        LinkedList_at_def LinkedList_eq_def LinkedList_end_def get_next_def node_at_def abc_list_def
        abc_nodes_def)
  have 2: "LinkedList_predec abc_lists abc_nodes \<lparr>currentNode = Some 3, collection_l = Some 0\<rparr>
     = Returns () \<lparr>currentNode = Some 2, collection_l = Some 0\<rparr>"
    using o b by (simp add: LinkedList_predec_def LinkedList_throwIfBegin_def LinkedList_eq_def
        get_prev_def node_at_def abc_nodes_def)
  have 3: "LinkedList_Iterator_postdec abc_lists abc_nodes \<lparr>currentNode = Some 3, collection_l = Some 0\<rparr>
     = Returns \<lparr>currentNode = Some 3, collection_l = Some 0\<rparr>
               \<lparr>currentNode = Some 2, collection_l = Some 0\<rparr>"
    using 2 by (simp add: LinkedList_Iterator_postdec_def)
  have 4: "LinkedList_ConstIterator_postdec abc_lists abc_nodes (LinkedList_end abc_list)
     = Throws out_of_range (LinkedList_end abc_list)"
    using o by (simp add: LinkedList_ConstIterator_postdec_def LinkedList_preinc_def LinkedList_throwIfEnd_def
        LinkedList_at_def LinkedList_eq_def LinkedList_end_def abc_list_def)
  have 5: "LinkedList_predec abc_lists abc_nodes (LinkedList_end abc_list)
     = Returns () \<lparr>currentNode = Some 4, collection_l = Some 0\<rparr>"
    using o b by (simp add: LinkedList_predec_def LinkedList_throwIfBegin_def LinkedList_eq_def
        LinkedList_end_def get_prev_def node_at_def abc_nodes_def abc_list_def)
  show ?thesis using abc_list_ctor o b 1 2 3 4 5 by simp
qed

text \<open>
  Claim C5: for both containers, \<^verbatim>\<open>popFirst\<close> and \<^verbatim>\<open>popLast\<close> throw (a logic error, and
  nothing else, leaving the container as it was) if and only if the size is zero. On a
  container that holds the elements \<open>xs\<close>, not none, \<^verbatim>\<open>popFirst\<close> returns the first element
  and leaves the others, in order; \<^verbatim>\<open>popLast\<close> returns the last element and leaves the
  others, in order; and the size decreases by exactly one.
\<close>

theorem C5_pops_throw_exactly_when_empty:
  "(Vector_popFirst v g = Throws e s \<longleftrightarrow> Vector_getSize v = 0 \<and> e = logic_error \<and> s = (v, g)) \<and>
   (Vector_popLast v g = Throws e s \<longleftrightarrow> Vector_getSize v = 0 \<and> e = logic_error \<and> s = (v, g)) \<and>
   (LinkedList_popFirst l h = Throws e t \<longleftrightarrow> LinkedList_getSize l = 0 \<and> e = logic_error \<and> t = (l, h)) \<and>
   (LinkedList_popLast l h = Throws e t \<longleftrightarrow> LinkedList_getSize l = 0 \<and> e = logic_error \<and> t = (l, h)) \<and>
   (Vector_rep g v zs \<and> zs \<noteq> [] \<longrightarrow>
      (\<exists>v' g'. Vector_popFirst v g = Returns (hd zs) (v', g') \<and> Vector_rep g' v' (tl zs)
         \<and> Vector_getSize v = Suc (Vector_getSize v')) \<and>
      (\<exists>v' g'. Vector_popLast v g = Returns (last zs) (v', g') \<and> Vector_rep g' v' (butlast zs)
         \<and> Vector_getSize v = Suc (Vector_getSize v'))) \<and>
   (LinkedList_rep h l as xs \<and> xs \<noteq> [] \<longrightarrow>
      (\<exists>l' h'. LinkedList_popFirst l h = Returns (hd xs) (l', h') \<and> LinkedList_rep h' l' (tl as) (tl xs)
         \<and> LinkedList_getSize l = Suc (LinkedList_getSize l')) \<and>
      (\<exists>l' h'. LinkedList_popLast l h = Returns (last xs) (l', h') \<and> LinkedList_rep h' l' (butlast as) (butlast xs)
         \<and> LinkedList_getSize l = Suc (LinkedList_getSize l')))"
proof (intro conjI impI)
  show "Vector_popFirst v g = Throws e s \<longleftrightarrow> Vector_getSize v = 0 \<and> e = logic_error \<and> s = (v, g)"
    by (simp add: Vector_popFirst_Throws Vector_getSize_def)
  show "Vector_popLast v g = Throws e s \<longleftrightarrow> Vector_getSize v = 0 \<and> e = logic_error \<and> s = (v, g)"
    by (simp add: Vector_popLast_Throws Vector_getSize_def)
  show "LinkedList_popFirst l h = Throws e t \<longleftrightarrow> LinkedList_getSize l = 0 \<and> e = logic_error \<and> t = (l, h)"
    by (simp add: LinkedList_popFirst_Throws LinkedList_getSize_def)
  show "LinkedList_popLast l h = Throws e t \<longleftrightarrow> LinkedList_getSize l = 0 \<and> e = logic_error \<and> t = (l, h)"
    by (simp add: LinkedList_popLast_Throws LinkedList_getSize_def)
next
  assume "Vector_rep g v zs \<and> zs \<noteq> []"
  then have rep: "Vector_rep g v zs" and ne: "zs \<noteq> []" by blast+
  have sz: "size_v v = length zs" using rep by (rule Vector_repE)
  obtain v' g' where p: "Vector_popFirst v g = Returns (hd zs) (v', g')" "Vector_rep g' v' (tl zs)"
    using Vector_popFirst_rep[OF rep ne] by blast
  have "size_v v' = length (tl zs)" using p(2) by (rule Vector_repE)
  then have "Vector_getSize v = Suc (Vector_getSize v')"
    using sz ne by (simp add: Vector_getSize_def)
  then show "\<exists>v' g'. Vector_popFirst v g = Returns (hd zs) (v', g') \<and> Vector_rep g' v' (tl zs)
         \<and> Vector_getSize v = Suc (Vector_getSize v')" using p by blast
  obtain v'' where q: "Vector_popLast v g = Returns (last zs) (v'', g)" "Vector_rep g v'' (butlast zs)"
    using Vector_popLast_rep[OF rep ne] by blast
  have "size_v v'' = length (butlast zs)" using q(2) by (rule Vector_repE)
  then have "Vector_getSize v = Suc (Vector_getSize v'')"
    using sz ne by (simp add: Vector_getSize_def)
  then show "\<exists>v' g'. Vector_popLast v g = Returns (last zs) (v', g') \<and> Vector_rep g' v' (butlast zs)
         \<and> Vector_getSize v = Suc (Vector_getSize v')" using q by blast
next
  assume "LinkedList_rep h l as xs \<and> xs \<noteq> []"
  then have rep: "LinkedList_rep h l as xs" and ne: "xs \<noteq> []" by blast+
  have sz: "size_l l = length xs" using rep by (rule LinkedList_repE)
  obtain l' h' where p: "LinkedList_popFirst l h = Returns (hd xs) (l', h')"
    "LinkedList_rep h' l' (tl as) (tl xs)"
    using LinkedList_popFirst_rep[OF rep ne] by blast
  have "size_l l' = length (tl xs)" using p(2) by (rule LinkedList_repE)
  then have "LinkedList_getSize l = Suc (LinkedList_getSize l')"
    using sz ne by (simp add: LinkedList_getSize_def)
  then show "\<exists>l' h'. LinkedList_popFirst l h = Returns (hd xs) (l', h') \<and> LinkedList_rep h' l' (tl as) (tl xs)
         \<and> LinkedList_getSize l = Suc (LinkedList_getSize l')" using p by blast
  obtain l'' h'' where q: "LinkedList_popLast l h = Returns (last xs) (l'', h'')"
    "LinkedList_rep h'' l'' (butlast as) (butlast xs)"
    using LinkedList_popLast_rep[OF rep ne] by blast
  have "size_l l'' = length (butlast xs)" using q(2) by (rule LinkedList_repE)
  then have "LinkedList_getSize l = Suc (LinkedList_getSize l'')"
    using sz ne by (simp add: LinkedList_getSize_def)
  then show "\<exists>l' h'. LinkedList_popLast l h = Returns (last xs) (l', h') \<and> LinkedList_rep h' l' (butlast as) (butlast xs)
         \<and> LinkedList_getSize l = Suc (LinkedList_getSize l')" using q by blast
qed

theorem C5_witness:
  "Vector_rep abc_heap abc_vector [1, 2, 3] \<and>
   (\<exists>v' g'. Vector_popFirst abc_vector abc_heap = Returns 1 (v', g') \<and> Vector_rep g' v' [2, 3]
      \<and> Vector_getSize v' = 2) \<and>
   (\<exists>v' g'. Vector_popLast abc_vector abc_heap = Returns 3 (v', g') \<and> Vector_rep g' v' [1, 2]
      \<and> Vector_getSize v' = 2) \<and>
   LinkedList_rep abc_nodes abc_list [2, 3, 4] [1, 2, 3] \<and>
   (\<exists>l' h'. LinkedList_popFirst abc_list abc_nodes = Returns 1 (l', h') \<and> LinkedList_rep h' l' [3, 4] [2, 3]
      \<and> LinkedList_getSize l' = 2) \<and>
   (\<exists>l' h'. LinkedList_popLast abc_list abc_nodes = Returns 3 (l', h') \<and> LinkedList_rep h' l' [2, 3] [1, 2]
      \<and> LinkedList_getSize l' = 2) \<and>
   LinkedList_popFirst nil_list abc_nil_nodes = Throws logic_error (nil_list, abc_nil_nodes)"
proof -
  note c = C5_pops_throw_exactly_when_empty [where g = abc_heap and v = abc_vector and zs = "[1, 2, 3]"
        and h = abc_nodes and l = abc_list and as = "[2, 3, 4]" and xs = "[1, 2, 3]"]
  have sv: "Vector_getSize abc_vector = 3" by (simp add: Vector_getSize_def abc_vector_def)
  have sl: "LinkedList_getSize abc_list = 3" by (simp add: LinkedList_getSize_def abc_list_def)
  have 1: "\<exists>v' g'. Vector_popFirst abc_vector abc_heap = Returns 1 (v', g') \<and> Vector_rep g' v' [2, 3]
      \<and> Vector_getSize v' = 2"
    using c abc_rep sv by simp
  have 2: "\<exists>v' g'. Vector_popLast abc_vector abc_heap = Returns 3 (v', g') \<and> Vector_rep g' v' [1, 2]
      \<and> Vector_getSize v' = 2"
    using c abc_rep sv by simp
  have 3: "\<exists>l' h'. LinkedList_popFirst abc_list abc_nodes = Returns 1 (l', h') \<and> LinkedList_rep h' l' [3, 4] [2, 3]
      \<and> LinkedList_getSize l' = 2"
    using c abc_list_rep sl by simp
  have 4: "\<exists>l' h'. LinkedList_popLast abc_list abc_nodes = Returns 3 (l', h') \<and> LinkedList_rep h' l' [2, 3] [1, 2]
      \<and> LinkedList_getSize l' = 2"
    using c abc_list_rep sl by simp
  have 5: "LinkedList_popFirst nil_list abc_nil_nodes = Throws logic_error (nil_list, abc_nil_nodes)"
    using C5_pops_throw_exactly_when_empty [where l = nil_list and h = abc_nil_nodes
        and e = logic_error and t = "(nil_list, abc_nil_nodes)",
        THEN conjunct2, THEN conjunct2, THEN conjunct1]
    by (simp add: LinkedList_getSize_def nil_list_def)
  show ?thesis using 1 2 3 4 5 abc_rep abc_list_rep by blast
qed







text \<open>
  Claim C8: after any sequence of appends to a container that starts empty, \<^verbatim>\<open>getSize()\<close>
  is the number of appended elements and the traversal from \<^verbatim>\<open>begin()\<close> to \<^verbatim>\<open>end()\<close> yields
  them in insertion order; after any sequence of prepends, in reverse insertion order.

  The code on the array \<^verbatim>\<open>Vector<nat> v(0)\<close>, which is empty: the first \<^verbatim>\<open>append\<close> and the
  first \<^verbatim>\<open>prepend\<close> double the capacity 0 to 0 and then write \<^verbatim>\<open>elements[0]\<close> outside the
  buffer of no cells, so the sequences of appends \<open>[7]\<close> and of prepends \<open>[7]\<close> are undefined.
  (For an array of capacity at least 1 and for the list the sequences do what the claim
  says: lemmas \<open>Vector_copyFromAndAppend_rep\<close>, \<open>Vector_prependAll_rep\<close>,
  \<open>Vector_traverse_rep\<close> and \<open>LinkedList_copyFrom_rep\<close>, \<open>LinkedList_prependAll_rep\<close>,
  \<open>LinkedList_traverse_rep\<close>.)
\<close>

theorem C8_appends_to_a_zero_capacity_array_are_undefined:
  "Vector_isEmpty (fst (Vector_ctor 0 0 empty_heap)) \<and>
   Vector_copyFromAndAppend [7] (fst (Vector_ctor 0 0 empty_heap))
       (snd (Vector_ctor 0 0 (empty_heap :: nat array_heap))) = Undefined \<and>
   Vector_prependAll [7] (fst (Vector_ctor 0 0 empty_heap))
       (snd (Vector_ctor 0 0 (empty_heap :: nat array_heap))) = Undefined"
  by (simp add: Vector_ctor_def new_array_def alloc_def empty_heap_def Vector_isEmpty_def
      Vector_append_def Vector_prepend_def reallocateMemoryIfNeeded_def reallocateMemory_def
      reallocateMemory_to_def delete_array_def free_def store_def
      shiftElementsToRightFrom_def shiftRight_loop.simps)

text \<open>
  Claim C9: two array cursors that are both tagged END are equal under \<^verbatim>\<open>operator==\<close>
  whatever their raw positions are, also when the positions lie in the buffers of two
  arrays; when at least one of two cursors is not tagged END, they are equal exactly when
  their raw positions are.
\<close>

theorem C9_end_tagged_cursors_are_equal:
  "(isEnd a \<and> isEnd b \<longrightarrow> Vector_eq a b) \<and>
   (\<not> (isEnd a \<and> isEnd b) \<longrightarrow> Vector_eq a b = (currentElement a = currentElement b))"
  by (simp add: Vector_eq_def)

theorem C9_witness:
  "Vector_eq \<lparr>currentElement = Ptr 0 3, collection_v = Some 0, iteratorType = END\<rparr>
             \<lparr>currentElement = Ptr 1 0, collection_v = Some 1, iteratorType = END\<rparr> \<and>
   \<not> Vector_eq \<lparr>currentElement = Ptr 0 3, collection_v = Some 0, iteratorType = REGULAR\<rparr>
               \<lparr>currentElement = Ptr 1 0, collection_v = Some 1, iteratorType = END\<rparr> \<and>
   Vector_eq \<lparr>currentElement = Ptr 0 3, collection_v = Some 0, iteratorType = REGULAR\<rparr>
             \<lparr>currentElement = Ptr 0 3, collection_v = Some 0, iteratorType = END\<rparr>"
  using C9_end_tagged_cursors_are_equal
          [of "\<lparr>currentElement = Ptr 0 3, collection_v = Some 0, iteratorType = END\<rparr>"
              "\<lparr>currentElement = Ptr 1 0, collection_v = Some 1, iteratorType = END\<rparr>"]
        C9_end_tagged_cursors_are_equal
          [of "\<lparr>currentElement = Ptr 0 3, collection_v = Some 0, iteratorType = REGULAR\<rparr>"
              "\<lparr>currentElement = Ptr 1 0, collection_v = Some 1, iteratorType = END\<rparr>"]
        C9_end_tagged_cursors_are_equal
          [of "\<lparr>currentElement = Ptr 0 3, collection_v = Some 0, iteratorType = REGULAR\<rparr>"
              "\<lparr>currentElement = Ptr 0 3, collection_v = Some 0, iteratorType = END\<rparr>"]
  by (simp add: isEnd_def)

text \<open>
  Claim C10: \<open>it + d\<close> and \<open>it - d\<close> are tagged REGULAR for every cursor \<open>it\<close> and every
  offset \<open>d\<close>. So, for an array that holds the \<open>n\<close> elements \<open>xs\<close>: \<^verbatim>\<open>begin() + n\<close> compares
  equal to \<^verbatim>\<open>end()\<close>; \<^verbatim>\<open>end()\<close> is tagged END, and dereferencing or incrementing it throws
  \<^verbatim>\<open>out_of_range\<close>; \<^verbatim>\<open>begin() + n\<close> is not tagged END, dereferencing or incrementing it
  never throws, and incrementing it returns when the array is the object at the address
  \<open>this\<close> its cursors point back to; and \<^verbatim>\<open>erase(begin() + n)\<close> passes the end-cursor
  check, and on such an array that is not empty it returns, having removed the last
  element.
\<close>

theorem C10_offset_cursors_are_regular:
  "iteratorType (Vector_plus it d) = REGULAR \<and> iteratorType (Vector_minus it d) = REGULAR \<and>
   (Vector_rep h v xs \<longrightarrow>
      Vector_eq (Vector_plus (Vector_begin this v) (int (length xs))) (fst (Vector_end this v)) \<and>
      isEnd (fst (Vector_end this v)) \<and>
      \<not> isEnd (Vector_plus (Vector_begin this v) (int (length xs))) \<and>
      Vector_deref (fst (Vector_end this v)) h = Throws out_of_range (fst (Vector_end this v)) \<and>
      Vector_preinc vs (fst (Vector_end this v)) = Throws out_of_range (fst (Vector_end this v)) \<and>
      (\<forall>e s. Vector_deref (Vector_plus (Vector_begin this v) (int (length xs))) h \<noteq> Throws e s) \<and>
      (\<forall>e s. Vector_preinc vs (Vector_plus (Vector_begin this v) (int (length xs))) \<noteq> Throws e s) \<and>
      Vector_throwIfIteratorEqaulsEnd (Vector_plus (Vector_begin this v) (int (length xs))) out_of_range = None \<and>
      (vs this = Some v \<longrightarrow>
         (\<exists>it'. Vector_preinc vs (Vector_plus (Vector_begin this v) (int (length xs))) = Returns () it') \<and>
         (xs \<noteq> [] \<longrightarrow>
            (\<exists>v'. Vector_erase vs (Vector_plus (Vector_begin this v) (int (length xs))) v h = Returns () (v', h)
                  \<and> Vector_rep h v' (butlast xs)))))"
proof (intro conjI impI)
  show "iteratorType (Vector_plus it d) = REGULAR" by (simp add: Vector_plus_def)
  show "iteratorType (Vector_minus it d) = REGULAR" by (simp add: Vector_minus_def)
next
  assume rep: "Vector_rep h v xs"
  let ?p = "Vector_plus (Vector_begin this v) (int (length xs))"
  let ?e = "fst (Vector_end this v)"
  from rep obtain b cs where v: "elements v = Ptr b 0" "size_v v = length xs"
    by (auto elim: Vector_repE)
  have p: "currentElement ?p = Ptr b (int (length xs))" "iteratorType ?p = REGULAR"
    "collection_v ?p = Some this"
    using v by (simp_all add: Vector_plus_def Vector_begin_def createBegin_def)
  have e: "currentElement ?e = Ptr b (int (length xs))" "iteratorType ?e = END"
    using Vector_end_rep[OF rep, of this] v by simp_all
  show "Vector_eq ?p ?e" using p e by (simp add: Vector_eq_def)
  show "isEnd ?e" using e by (simp add: isEnd_def)
  show "\<not> isEnd ?p" using p by (simp add: isEnd_def)
  show "Vector_deref ?e h = Throws out_of_range ?e"
    using e by (simp add: Vector_deref_def Vector_throwIfEnd_def isEnd_def)
  show "Vector_preinc vs ?e = Throws out_of_range ?e"
    using e by (simp add: Vector_preinc_def Vector_throwIfEnd_def isEnd_def)
  show "\<forall>e s. Vector_deref ?p h \<noteq> Throws e s"
    using p by (simp add: Vector_deref_def Vector_throwIfEnd_def isEnd_def split: option.splits)
  show "\<forall>e s. Vector_preinc vs ?p \<noteq> Throws e s"
    using p by (simp add: Vector_preinc_def Vector_throwIfEnd_def isEnd_def Let_def split: option.splits)
  show "Vector_throwIfIteratorEqaulsEnd ?p out_of_range = None"
    using p by (simp add: Vector_throwIfIteratorEqaulsEnd_def isEnd_def)
  show "\<exists>it'. Vector_preinc vs ?p = Returns () it'" if "vs this = Some v"
    using p v that
    by (simp add: Vector_preinc_def Vector_throwIfEnd_def isEnd_def Let_def isBegin_def Vector_at_def)
  show "\<exists>v'. Vector_erase vs ?p v h = Returns () (v', h) \<and> Vector_rep h v' (butlast xs)"
    if "vs this = Some v" "xs \<noteq> []"
    using Vector_erase_at_size[OF rep that(2), of vs this] that(1) by simp
qed

theorem C10_witness:
  "Vector_rep abc_heap abc_vector [1, 2, 3] \<and> abc_objects 0 = Some abc_vector \<and>
   Vector_eq (Vector_plus (Vector_begin 0 abc_vector) 3) (fst (Vector_end 0 abc_vector)) \<and>
   (\<exists>it'. Vector_preinc abc_objects (Vector_plus (Vector_begin 0 abc_vector) 3) = Returns () it') \<and>
   (\<exists>v'. Vector_erase abc_objects (Vector_plus (Vector_begin 0 abc_vector) 3) abc_vector abc_heap
            = Returns () (v', abc_heap)
         \<and> Vector_rep abc_heap v' [1, 2])"
  using C10_offset_cursors_are_regular [of undefined 0 abc_heap abc_vector "[1, 2, 3]" 0 abc_objects] abc_rep
  by (simp add: abc_objects_def)

end
